theory Spec2Isabelle
  imports Main "HOL-Library.Char_ord" "HOL-Library.List_Lexorder"
begin

section \<open>Strings, bytes and string streams\<close>

text \<open>
  \<^verbatim>\<open>std::string\<close> is a sequence of 8-bit characters and \<^verbatim>\<open>std::vector<uint8_t>\<close> a
  sequence of bytes; both are lists of \<^typ>\<open>char\<close> here (a \<^typ>\<open>char\<close> is one byte), so the
  copy \<^verbatim>\<open>std::string(rawData, rawData + size)\<close> is the identity.
\<close>

type_synonym bytes = "char list"

definition SP :: char where "SP = CHR 0x20"
definition CR :: char where "CR = CHR 0x0D"
definition LF :: char where "LF = CHR 0x0A"
definition NUL :: char where "NUL = CHR 0x00"

text \<open>
  \<^verbatim>\<open>std::stringstream\<close>, as far as \<^verbatim>\<open>std::getline\<close> sees it: the characters not yet read and
  the two state bits. The stream is \<^verbatim>\<open>good()\<close> when neither bit is set, and converts to
  \<^verbatim>\<open>true\<close> (the loop conditions of the source) when \<^verbatim>\<open>failbit\<close> is not set.
\<close>

record sstream =
  buf :: string
  eofbit :: bool
  failbit :: bool

definition stringstream :: "string \<Rightarrow> sstream" where
  "stringstream s = \<lparr>buf = s, eofbit = False, failbit = False\<rparr>"

definition good :: "sstream \<Rightarrow> bool" where
  "good ss = (\<not> eofbit ss \<and> \<not> failbit ss)"

text \<open>
  \<^verbatim>\<open>std::getline(is, str, delim)\<close>. The sentry fails on a stream that is not good: it sets
  \<^verbatim>\<open>failbit\<close> and \<^verbatim>\<open>str\<close> keeps its old contents. Otherwise \<^verbatim>\<open>str\<close> is erased and
  characters are moved to it until the delimiter (extracted, not stored) or the end of the
  stream (\<^verbatim>\<open>eofbit\<close>); when nothing at all was extracted, \<^verbatim>\<open>failbit\<close> is set as well.
\<close>

definition getline :: "sstream \<Rightarrow> string \<Rightarrow> char \<Rightarrow> sstream \<times> string" where
  "getline ss str delim =
     (if \<not> good ss then (ss\<lparr>failbit := True\<rparr>, str)
      else if delim \<in> set (buf ss)
        then (ss\<lparr>buf := tl (dropWhile (\<lambda>c. c \<noteq> delim) (buf ss))\<rparr>,
              takeWhile (\<lambda>c. c \<noteq> delim) (buf ss))
      else (ss\<lparr>buf := [], eofbit := True, failbit := (buf ss = [])\<rparr>, buf ss))"

text \<open>What bounds the loops over a stream: every successful read makes it smaller.\<close>

definition stream_size :: "sstream \<Rightarrow> nat" where
  "stream_size ss = length (buf ss) + (if good ss then 1 else 0)"

section \<open>The maps of headers and cookies\<close>

text \<open>
  \<^verbatim>\<open>std::map<std::string, std::string>\<close>: unique keys, iterated in ascending key order
  (bytewise lexicographic). The model is the list of entries in iteration order.
\<close>

type_synonym headers_t = "(string \<times> string) list"
type_synonym cookies_t = headers_t

text \<open>\<^verbatim>\<open>m[key] = value\<close>\<close>

fun map_set :: "string \<Rightarrow> string \<Rightarrow> headers_t \<Rightarrow> headers_t" where
  "map_set k v [] = [(k, v)]"
| "map_set k v ((k', v') # m) =
     (if k < k' then (k, v) # (k', v') # m
      else if k = k' then (k, v) # m
      else (k', v') # map_set k v m)"

text \<open>\<^verbatim>\<open>m.erase(key)\<close>\<close>

definition map_erase :: "string \<Rightarrow> headers_t \<Rightarrow> headers_t" where
  "map_erase k m = filter (\<lambda>e. fst e \<noteq> k) m"

section \<open>The response and its parser\<close>

record Response =
  curlCode :: nat
  code :: int
  message :: string
  data :: string
  rawData :: bytes
  rawHeaders :: bytes
  headers :: headers_t
  cookies :: cookies_t

definition CURLE_OK :: nat where "CURLE_OK = 0"

text \<open>\<^verbatim>\<open>Response response{}\<close> and the members that \<^verbatim>\<open>return { curlCode }\<close> leaves out.\<close>

definition Response0 :: Response where
  "Response0 = \<lparr>curlCode = 0, code = 0, message = [], data = [], rawData = [],
     rawHeaders = [], headers = [], cookies = []\<rparr>"

text \<open>
  The exceptions that the code can raise (of the standard library, and of the JSON library
  with its exception id), and undefined behaviour.
\<close>

datatype exn = invalid_argument | out_of_range | json_exception nat | UndefinedBehaviour

text \<open>An exception ends the function; otherwise the computation goes on with the value.\<close>

fun and_then :: "exn + 'a \<Rightarrow> ('a \<Rightarrow> exn + 'b) \<Rightarrow> exn + 'b" where
  "and_then (Inl e) f = Inl e"
| "and_then (Inr x) f = f x"

text \<open>
  Positions: \<^verbatim>\<open>std::string::find\<close> returns a \<^verbatim>\<open>size_t\<close> (64 bits), \<^verbatim>\<open>npos\<close> when there is no
  match; the source stores it in an \<^verbatim>\<open>int\<close> (32 bits, two's complement) and hands
  \<^verbatim>\<open>index + 1\<close> and \<^verbatim>\<open>index\<close> back to \<^verbatim>\<open>substr\<close> as \<^verbatim>\<open>size_t\<close>. A \<^verbatim>\<open>size_t\<close> value
  is an integer from 0 to \<open>2\<^sup>6\<^sup>4 - 1\<close>.
\<close>

definition npos :: int where "npos = 2 ^ 64 - 1"

text \<open>\<^verbatim>\<open>s.find(c)\<close>, with \<^term>\<open>None\<close> for no match; \<^verbatim>\<open>size_t_of_pos\<close> is the value returned.\<close>

fun find_char :: "string \<Rightarrow> char \<Rightarrow> nat option" where
  "find_char [] c = None"
| "find_char (x # xs) c = (if x = c then Some 0 else map_option Suc (find_char xs c))"

definition size_t_of_pos :: "nat option \<Rightarrow> int" where
  "size_t_of_pos p = (case p of None \<Rightarrow> npos | Some i \<Rightarrow> int i)"

definition int_of_size_t :: "int \<Rightarrow> int" where
  "int_of_size_t n = (let m = n mod 2 ^ 32 in if m < 2 ^ 31 then m else m - 2 ^ 32)"

definition size_t_of_int :: "int \<Rightarrow> int" where
  "size_t_of_int i = i mod 2 ^ 64"

text \<open>\<^verbatim>\<open>index + 1\<close> on an \<^verbatim>\<open>int\<close>: signed overflow is undefined.\<close>

definition int_succ :: "int \<Rightarrow> exn + int" where
  "int_succ i = (if i = 2 ^ 31 - 1 then Inl UndefinedBehaviour else Inr (i + 1))"

text \<open>\<^verbatim>\<open>s.substr(pos, count)\<close> throws when \<^verbatim>\<open>pos > size()\<close>.\<close>

definition substr :: "string \<Rightarrow> int \<Rightarrow> int \<Rightarrow> exn + string" where
  "substr s pos count =
     (if pos > int (length s) then Inl out_of_range
      else if int (length s) - pos \<le> count then Inr (drop (nat pos) s)
      else Inr (take (nat count) (drop (nat pos) s)))"

text \<open>
  \<^verbatim>\<open>std::stoi(str)\<close>: \<^verbatim>\<open>strtol\<close> in base 10 (white space skipped, an optional sign, then the
  longest run of digits); no digit is \<^verbatim>\<open>std::invalid_argument\<close>, a value that does not fit
  an \<^verbatim>\<open>int\<close> is \<^verbatim>\<open>std::out_of_range\<close>.
\<close>

definition isspace :: "char \<Rightarrow> bool" where
  "isspace c = (c = CHR 0x20 \<or> c = CHR 0x09 \<or> c = CHR 0x0A \<or> c = CHR 0x0B \<or> c = CHR 0x0C \<or> c = CHR 0x0D)"

definition isdigit :: "char \<Rightarrow> bool" where
  "isdigit c = (CHR ''0'' \<le> c \<and> c \<le> CHR ''9'')"

definition digits_value :: "string \<Rightarrow> int" where
  "digits_value ds = foldl (\<lambda>a c. 10 * a + (of_char c - 48)) 0 ds"

definition stoi :: "string \<Rightarrow> exn + int" where
  "stoi str =
     (let s1 = dropWhile isspace str;
          neg = (s1 \<noteq> [] \<and> hd s1 = CHR ''-'');
          s2 = (if s1 \<noteq> [] \<and> (hd s1 = CHR ''-'' \<or> hd s1 = CHR ''+'') then tl s1 else s1);
          ds = takeWhile isdigit s2;
          v = (if neg then - digits_value ds else digits_value ds)
      in if ds = [] then Inl invalid_argument
         else if v < - (2 ^ 31) \<or> 2 ^ 31 - 1 < v then Inl out_of_range
         else Inr v)"

text \<open>\<^verbatim>\<open>std::tolower\<close> on an \<^verbatim>\<open>unsigned char\<close>, in the C locale.\<close>

definition tolower :: "char \<Rightarrow> char" where
  "tolower c =
     (case map_of (zip ''ABCDEFGHIJKLMNOPQRSTUVWXYZ'' ''abcdefghijklmnopqrstuvwxyz'') c of
        None \<Rightarrow> c
      | Some l \<Rightarrow> l)"

text \<open>
  The cookie loop of \<^verbatim>\<open>execute\<close>:
  \<^verbatim>\<open>while (std::getline(cookieStream, cookie, '=')) { ... }\<close>.
  \<^verbatim>\<open>cookieValue\<close> is a fresh empty string in every round.
\<close>

function cookie_loop :: "sstream \<Rightarrow> string \<Rightarrow> cookies_t \<Rightarrow> cookies_t" where
  "cookie_loop cookieStream cookie cks =
     (let (s1, cookie1) = getline cookieStream cookie (CHR ''='') in
      if failbit s1 then cks
      else
        let (s2, cookieValue1) = getline s1 [] (CHR '';'');
            cks1 = map_set cookie1 cookieValue1 cks;
            (s3, cookieValue2) = getline s2 cookieValue1 SP
        in cookie_loop s3 cookie1 cks1)"
  by pat_completeness auto

lemma getline_size_le: "stream_size (fst (getline ss str d)) \<le> stream_size ss"
  by (auto simp: getline_def stream_size_def good_def length_dropWhile_le le_SucI)

lemma getline_size_less:
  assumes nf: "\<not> failbit (fst (getline ss str d))"
  shows "stream_size (fst (getline ss str d)) < stream_size ss"
proof (cases "good ss")
  case False
  with nf show ?thesis by (simp add: getline_def)
next
  case True
  show ?thesis
  proof (cases "d \<in> set (buf ss)")
    case True
    then have "dropWhile (\<lambda>c. c \<noteq> d) (buf ss) \<noteq> []" by simp
    then have "length (tl (dropWhile (\<lambda>c. c \<noteq> d) (buf ss)))
        < length (dropWhile (\<lambda>c. c \<noteq> d) (buf ss))"
      by simp
    also have "\<dots> \<le> length (buf ss)" by (rule length_dropWhile_le)
    finally show ?thesis using True \<open>good ss\<close>
      by (simp add: getline_def stream_size_def good_def)
  next
    case False
    with nf \<open>good ss\<close> show ?thesis
      by (simp add: getline_def stream_size_def good_def)
  qed
qed

termination cookie_loop
proof (relation "measure (\<lambda>(s, c, m). stream_size s)", goal_cases)
  case 1
  show ?case by simp
next
  case (2 cookieStream cookie cks x1 s1 cookie1 y s2 cv1 cks1 z s3 cv2)
  have a: "s1 = fst (getline cookieStream cookie CHR ''='')" using 2 by (metis fst_conv)
  have b: "s2 = fst (getline s1 [] CHR '';'')" using 2 by (metis fst_conv)
  have c: "s3 = fst (getline s2 cv1 SP)" using 2 by (metis fst_conv)
  have "stream_size s3 \<le> stream_size s2" unfolding c by (rule getline_size_le)
  also have "\<dots> \<le> stream_size s1" unfolding b by (rule getline_size_le)
  also have "\<dots> < stream_size cookieStream"
    unfolding a using 2 a by (intro getline_size_less) simp
  finally show ?case by simp
qed

declare cookie_loop.simps [simp del]

text \<open>The body of the loop over the header lines, for one \<^verbatim>\<open>line\<close>.\<close>

definition header_line :: "string \<Rightarrow> cookies_t \<times> headers_t \<Rightarrow> cookies_t \<times> headers_t" where
  "header_line line st =
     (let lineStream = stringstream line;
          (s1, key) = getline lineStream [] (CHR '':'');
          (s2, value1) = getline s1 [] SP;
          (s3, value) = getline s2 value1 CR;
          key' = map tolower key;
          cks = (if key' = ''set-cookie'' then cookie_loop (stringstream value) [] (fst st)
                 else fst st)
      in (cks, map_set key' value (snd st)))"

text \<open>\<^verbatim>\<open>while (std::getline(ss, line)) { ... }\<close>\<close>

function header_loop :: "sstream \<Rightarrow> string \<Rightarrow> cookies_t \<times> headers_t \<Rightarrow> cookies_t \<times> headers_t" where
  "header_loop ss line st =
     (let (ss1, line1) = getline ss line LF in
      if failbit ss1 then st else header_loop ss1 line1 (header_line line1 st))"
  by pat_completeness auto

termination header_loop
proof (relation "measure (\<lambda>(s, l, st). stream_size s)", goal_cases)
  case 1
  show ?case by simp
next
  case (2 ss line st x1 ss1 line1)
  have a: "ss1 = fst (getline ss line LF)" using 2 by (metis fst_conv)
  have "stream_size ss1 < stream_size ss"
    unfolding a using 2 a by (intro getline_size_less) simp
  then show ?case by simp
qed

declare header_loop.simps [simp del]

text \<open>
  What \<^verbatim>\<open>curl_easy_perform\<close> leaves behind: its return code and the bytes that the write
  callback \<^verbatim>\<open>_m_writeFunction\<close> appended to \<^verbatim>\<open>responseData\<close> and to \<^verbatim>\<open>headerData\<close>.
\<close>

record engine_result =
  er_code :: nat
  er_body :: bytes
  er_headers :: bytes

text \<open>\<^verbatim>\<open>Request::execute\<close> from the return of \<^verbatim>\<open>curl_easy_perform\<close> on.\<close>

definition execute_result :: "engine_result \<Rightarrow> exn + Response" where
  "execute_result er =
     (if er_code er \<noteq> CURLE_OK then Inr (Response0\<lparr>curlCode := er_code er\<rparr>)
      else
        let response = Response0\<lparr>rawData := er_body er, data := er_body er,
                                  rawHeaders := er_headers er\<rparr>;
            hdrs = er_headers er;
            (ss, line) = getline (stringstream hdrs) [] LF;
            index = int_of_size_t (size_t_of_pos (find_char line SP))
        in and_then (int_succ index) (\<lambda>i1.
           and_then (substr line (size_t_of_int i1) npos) (\<lambda>responsePart.
           let index2 = int_of_size_t (size_t_of_pos (find_char responsePart SP)) in
           and_then (int_succ index2) (\<lambda>i2.
           and_then (substr responsePart (size_t_of_int i2) npos) (\<lambda>msg.
           and_then (substr responsePart 0 (size_t_of_int index2)) (\<lambda>codeStr.
           and_then (stoi codeStr) (\<lambda>c.
           let (cks, hs) = header_loop (stringstream hdrs) line ([], [])
           in Inr (response\<lparr>code := c, message := msg, headers := hs, cookies := cks,
                             curlCode := er_code er\<rparr>))))))))"

section \<open>The request and its dispatch through the engine\<close>

text \<open>
  The options of a curl session that the adapter sets. \<^verbatim>\<open>CURLOPT_HTTPHEADER\<close> keeps the
  pointer it is given (\<^term>\<open>None\<close> is \<^verbatim>\<open>NULL\<close>); the URL is copied as a C string.
  Setting \<^verbatim>\<open>CURLOPT_POSTFIELDS\<close> also makes the session a POST, as \<^verbatim>\<open>CURLOPT_POST\<close> does;
  \<^verbatim>\<open>CURLOPT_HTTPGET\<close> makes it a GET again; \<^verbatim>\<open>CURLOPT_CUSTOMREQUEST\<close> only names the verb
  to send.
\<close>

datatype verb = HTTPGET | POST

record easy_handle =
  opt_url :: string
  opt_httpheader :: "nat option"
  opt_postfieldsize :: nat
  opt_postfields :: string
  opt_verb :: verb
  opt_customrequest :: "string option"

definition easy0 :: easy_handle where
  "easy0 = \<lparr>opt_url = [], opt_httpheader = None, opt_postfieldsize = 0, opt_postfields = [],
     opt_verb = HTTPGET, opt_customrequest = None\<rparr>"

text \<open>
  The member \<^verbatim>\<open>CURL* curl\<close> has no initialiser: it is indeterminate until
  \<^verbatim>\<open>initalize\<close> stores the session or a null pointer in it.
\<close>

datatype curl_ptr = Indeterminate | Nullptr | Easy easy_handle

record Request =
  req_url :: string
  req_data :: string
  req_headers :: headers_t
  req_cookies :: cookies_t
  curl_headers :: "nat option"
  curl :: curl_ptr

text \<open>What the engine is handed at \<^verbatim>\<open>curl_easy_perform\<close>, the header list read through its pointer.\<close>

record transfer =
  t_url :: string
  t_headers :: "string list"
  t_postfields :: string
  t_postfieldsize :: nat
  t_verb :: verb
  t_customrequest :: "string option"

text \<open>
  The engine is a parameter: whether \<^verbatim>\<open>curl_easy_init\<close> yields a session, and what a transfer
  returns (it may depend on how many transfers went before).
\<close>

record engine =
  curl_easy_init :: bool
  curl_perform :: "nat \<Rightarrow> transfer \<Rightarrow> engine_result"

text \<open>
  Outside the request: the live \<^verbatim>\<open>curl_slist\<close> allocations by address, the next fresh address,
  and the transfers performed so far.
\<close>

record world =
  slists :: "nat \<rightharpoonup> string list"
  next_addr :: nat
  performed :: "transfer list"

definition world0 :: world where
  "world0 = \<lparr>slists = Map.empty, next_addr = 1, performed = []\<rparr>"

text \<open>\<^verbatim>\<open>s.c_str()\<close> read as a C string: it ends at the first NUL byte.\<close>

definition c_str :: "string \<Rightarrow> string" where
  "c_str s = takeWhile (\<lambda>c. c \<noteq> NUL) s"

text \<open>\<^verbatim>\<open>curl_slist_append(list, cstring)\<close>: a null list becomes a new allocation.\<close>

definition curl_slist_append :: "world \<Rightarrow> nat option \<Rightarrow> string \<Rightarrow> exn + (world \<times> nat option)" where
  "curl_slist_append w lst cs =
     (case lst of
        None \<Rightarrow> Inr (w\<lparr>slists := (slists w)(next_addr w \<mapsto> [cs]), next_addr := Suc (next_addr w)\<rparr>,
                     Some (next_addr w))
      | Some p \<Rightarrow>
          (case slists w p of
             None \<Rightarrow> Inl UndefinedBehaviour
           | Some l \<Rightarrow> Inr (w\<lparr>slists := (slists w)(p \<mapsto> l @ [cs])\<rparr>, Some p)))"

text \<open>\<^verbatim>\<open>curl_slist_free_all(list)\<close> on a non-null pointer: freeing what is not live is undefined.\<close>

definition curl_slist_free_all :: "world \<Rightarrow> nat \<Rightarrow> exn + world" where
  "curl_slist_free_all w p =
     (case slists w p of
        None \<Rightarrow> Inl UndefinedBehaviour
      | Some l \<Rightarrow> Inr (w\<lparr>slists := (slists w)(p := None)\<rparr>))"

text \<open>
  \<^verbatim>\<open>curl_easy_setopt(curl, ...)\<close>: on a null handle it only returns an error code, which the
  source never looks at.
\<close>

definition setopt :: "curl_ptr \<Rightarrow> (easy_handle \<Rightarrow> easy_handle) \<Rightarrow> exn + curl_ptr" where
  "setopt c f =
     (case c of
        Indeterminate \<Rightarrow> Inl UndefinedBehaviour
      | Nullptr \<Rightarrow> Inr Nullptr
      | Easy h \<Rightarrow> Inr (Easy (f h)))"

text \<open>The constructors \<^verbatim>\<open>Request(url)\<close>, \<^verbatim>\<open>Request(url, data)\<close>, \<^verbatim>\<open>Request(url, data, headers)\<close>.\<close>

definition Request3 :: "string \<Rightarrow> string \<Rightarrow> headers_t \<Rightarrow> Request" where
  "Request3 u d hs = \<lparr>req_url = u, req_data = d, req_headers = hs, req_cookies = [],
     curl_headers = None, curl = Indeterminate\<rparr>"

definition Request1 :: "string \<Rightarrow> Request" where
  "Request1 u = Request3 u [] []"

definition Request2 :: "string \<Rightarrow> string \<Rightarrow> Request" where
  "Request2 u d = Request3 u d []"

definition initalize :: "engine \<Rightarrow> Request \<Rightarrow> Request \<times> int" where
  "initalize E r =
     (let localCurl = (if curl_easy_init E then Easy easy0 else Nullptr)
      in (r\<lparr>curl := localCurl\<rparr>, if localCurl \<noteq> Nullptr then 1 else 0))"

definition set_url :: "string \<Rightarrow> Request \<Rightarrow> Request" where
  "set_url u r = r\<lparr>req_url := u\<rparr>"

definition set_data :: "string \<Rightarrow> Request \<Rightarrow> Request" where
  "set_data d r = r\<lparr>req_data := d\<rparr>"

definition set_header :: "string \<Rightarrow> string \<Rightarrow> Request \<Rightarrow> Request" where
  "set_header k v r = r\<lparr>req_headers := map_set k v (req_headers r)\<rparr>"

definition set_cookie :: "string \<Rightarrow> string \<Rightarrow> Request \<Rightarrow> Request" where
  "set_cookie k v r = r\<lparr>req_cookies := map_set k v (req_cookies r)\<rparr>"

definition remove_header :: "string \<Rightarrow> Request \<Rightarrow> Request" where
  "remove_header k r = r\<lparr>req_headers := map_erase k (req_headers r)\<rparr>"

definition remove_cookie :: "string \<Rightarrow> Request \<Rightarrow> Request" where
  "remove_cookie k r = r\<lparr>req_cookies := map_erase k (req_cookies r)\<rparr>"

text \<open>The loop over the header map in \<^verbatim>\<open>prepareHeaders\<close>, on the local list pointer.\<close>

fun headers_loop :: "world \<Rightarrow> nat option \<Rightarrow> headers_t \<Rightarrow> exn + (world \<times> nat option)" where
  "headers_loop w lst [] = Inr (w, lst)"
| "headers_loop w lst ((key, val) # rest) =
     (let header = key @ '': '' @ val
      in and_then (curl_slist_append w lst (c_str header)) (\<lambda>(w', lst'). headers_loop w' lst' rest))"

text \<open>The loop over the cookie map, on the string \<^verbatim>\<open>cookie_header\<close>.\<close>

fun cookies_loop :: "string \<Rightarrow> cookies_t \<Rightarrow> string" where
  "cookies_loop cookie_header [] = cookie_header"
| "cookies_loop cookie_header ((key, val) # rest) =
     cookies_loop (cookie_header @ key @ ''='' @ val @ ''; '') rest"

definition prepareHeaders :: "world \<Rightarrow> Request \<Rightarrow> exn + (world \<times> Request)" where
  "prepareHeaders w r =
     and_then (case curl_headers r of None \<Rightarrow> Inr w | Some p \<Rightarrow> curl_slist_free_all w p) (\<lambda>w1.
     and_then (headers_loop w1 None (req_headers r)) (\<lambda>(w2, lst).
     let cookie_header = cookies_loop ''Cookie: '' (req_cookies r) in
     and_then (curl_slist_append w2 lst (c_str cookie_header)) (\<lambda>(w3, lst').
     let r1 = r\<lparr>curl_headers := lst'\<rparr> in
     and_then (setopt (curl r1) (\<lambda>h. h\<lparr>opt_httpheader := lst'\<rparr>)) (\<lambda>c.
     Inr (w3, r1\<lparr>curl := c\<rparr>)))))"

definition prepare :: "world \<Rightarrow> Request \<Rightarrow> exn + (world \<times> Request)" where
  "prepare w r =
     and_then (setopt (curl r) (\<lambda>h. h\<lparr>opt_url := c_str (req_url r)\<rparr>)) (\<lambda>c.
     and_then (prepareHeaders w (r\<lparr>curl := c\<rparr>)) (\<lambda>(w1, r1).
     and_then (setopt (curl r1) (\<lambda>h. h\<lparr>opt_postfieldsize := length (req_data r1)\<rparr>)) (\<lambda>c1.
     and_then (setopt c1 (\<lambda>h. h\<lparr>opt_postfields := req_data r1, opt_verb := POST\<rparr>)) (\<lambda>c2.
     Inr (w1, r1\<lparr>curl := c2\<rparr>)))))"

text \<open>
  \<^verbatim>\<open>curl_easy_perform(curl)\<close>: a null handle is refused with
  \<^verbatim>\<open>CURLE_BAD_FUNCTION_ARGUMENT\<close>, nothing is transferred. Reading a header list that is not
  live is undefined.
\<close>

definition CURLE_BAD_FUNCTION_ARGUMENT :: nat where "CURLE_BAD_FUNCTION_ARGUMENT = 43"

definition curl_easy_perform :: "engine \<Rightarrow> world \<Rightarrow> curl_ptr \<Rightarrow> exn + (world \<times> engine_result)" where
  "curl_easy_perform E w c =
     (case c of
        Indeterminate \<Rightarrow> Inl UndefinedBehaviour
      | Nullptr \<Rightarrow> Inr (w, \<lparr>er_code = CURLE_BAD_FUNCTION_ARGUMENT, er_body = [], er_headers = []\<rparr>)
      | Easy h \<Rightarrow>
          and_then (case opt_httpheader h of
                      None \<Rightarrow> Inr []
                    | Some p \<Rightarrow> (case slists w p of None \<Rightarrow> Inl UndefinedBehaviour | Some l \<Rightarrow> Inr l))
            (\<lambda>hl.
               let t = \<lparr>t_url = opt_url h, t_headers = hl, t_postfields = opt_postfields h,
                        t_postfieldsize = opt_postfieldsize h, t_verb = opt_verb h,
                        t_customrequest = opt_customrequest h\<rparr>
               in Inr (w\<lparr>performed := performed w @ [t]\<rparr>,
                       curl_perform E (length (performed w)) t)))"

text \<open>
  A dispatch returns the response or the exception, and the state it leaves (after undefined
  behaviour the state means nothing).
\<close>

definition execute :: "engine \<Rightarrow> world \<Rightarrow> Request \<Rightarrow> (exn + Response) \<times> world" where
  "execute E w r =
     (case curl_easy_perform E w (curl r) of
        Inl e \<Rightarrow> (Inl e, w)
      | Inr (w1, er) \<Rightarrow> (execute_result er, w1))"

definition dispatch :: "(easy_handle \<Rightarrow> easy_handle) \<Rightarrow> engine \<Rightarrow> world \<times> Request
    \<Rightarrow> (exn + Response) \<times> world \<times> Request" where
  "dispatch verb_opt E st =
     (case prepare (fst st) (snd st) of
        Inl e \<Rightarrow> (Inl e, st)
      | Inr (w1, r1) \<Rightarrow>
          (case setopt (curl r1) verb_opt of
             Inl e \<Rightarrow> (Inl e, w1, r1)
           | Inr c \<Rightarrow>
               let r2 = r1\<lparr>curl := c\<rparr>; (res, w2) = execute E w1 r2 in (res, w2, r2)))"

definition post :: "engine \<Rightarrow> world \<times> Request \<Rightarrow> (exn + Response) \<times> world \<times> Request" where
  "post = dispatch (\<lambda>h. h\<lparr>opt_verb := POST\<rparr>)"

definition get :: "engine \<Rightarrow> world \<times> Request \<Rightarrow> (exn + Response) \<times> world \<times> Request" where
  "get = dispatch (\<lambda>h. h\<lparr>opt_verb := HTTPGET\<rparr>)"

definition request :: "string \<Rightarrow> engine \<Rightarrow> world \<times> Request \<Rightarrow> (exn + Response) \<times> world \<times> Request" where
  "request method = dispatch (\<lambda>h. h\<lparr>opt_customrequest := Some (c_str method)\<rparr>)"

text \<open>\<^verbatim>\<open>~Request()\<close>\<close>

definition Request_dtor :: "world \<Rightarrow> Request \<Rightarrow> exn + world" where
  "Request_dtor w r =
     and_then (case curl_headers r of None \<Rightarrow> Inr w | Some p \<Rightarrow> curl_slist_free_all w p) (\<lambda>w1.
     case curl r of Indeterminate \<Rightarrow> Inl UndefinedBehaviour | _ \<Rightarrow> Inr w1)"

section \<open>The facade: the count operations of a user\<close>

text \<open>
  \<^verbatim>\<open>std::to_string\<close> of the user identifier. Modelled from the spec: the declaration of
  \<^verbatim>\<open>UID\<close> is in \<^verbatim>\<open>ropp.h\<close>, the spec makes it a 64-bit unsigned integer.
\<close>

definition digit_char :: "nat \<Rightarrow> char" where
  "digit_char d = ''0123456789'' ! d"

fun to_string :: "nat \<Rightarrow> string" where
  "to_string n = (if n < 10 then [digit_char n] else to_string (n div 10) @ [digit_char (n mod 10)])"

declare to_string.simps [simp del]

text \<open>
  The JSON library behind \<^verbatim>\<open>json\<close> is no part of the repository; it is a parameter:
  \<^verbatim>\<open>json::parse(text)\<close>, \<^verbatim>\<open>document[key]\<close> and the conversion of a document to \<^verbatim>\<open>int\<close>,
  each of which may throw.
\<close>

record 'j json_lib =
  json_parse :: "string \<Rightarrow> exn + 'j"
  json_at :: "'j \<Rightarrow> string \<Rightarrow> exn + 'j"
  json_int :: "'j \<Rightarrow> exn + int"

text \<open>
  The first four statements of every operation: a request for the URL with the
  \<^verbatim>\<open>Referer\<close> header, \<^verbatim>\<open>initalize\<close> (its result is dropped), \<^verbatim>\<open>get\<close>.
\<close>

definition referer_get :: "engine \<Rightarrow> string \<Rightarrow> world \<Rightarrow> (exn + Response) \<times> world \<times> Request" where
  "referer_get E u w =
     (let req = Request1 u;
          req1 = set_header ''Referer'' ''https://www.roblox.com/'' req;
          req2 = fst (initalize E req1)
      in get E (w, req2))"

text \<open>Leaving the operation destroys the local request.\<close>

definition leave :: "exn + 'a \<Rightarrow> world \<Rightarrow> Request \<Rightarrow> (exn + 'a) \<times> world" where
  "leave result w r =
     (case Request_dtor w r of Inl e \<Rightarrow> (Inl e, w) | Inr w1 \<Rightarrow> (result, w1))"

text \<open>\<^verbatim>\<open>return json::parse(res.data)["count"];\<close>\<close>

definition parse_count :: "'j json_lib \<Rightarrow> Response \<Rightarrow> exn + int" where
  "parse_count J res =
     and_then (json_parse J (data res)) (\<lambda>j. and_then (json_at J j ''count'') (json_int J))"

definition GetFriendsCount :: "'j json_lib \<Rightarrow> engine \<Rightarrow> nat \<Rightarrow> world \<Rightarrow> (exn + int) \<times> world" where
  "GetFriendsCount J E UID w =
     (let (res, w1, req) =
            referer_get E (''https://friends.roblox.com/v1/users/'' @ to_string UID @ ''/friends/count'') w
      in leave (and_then res (parse_count J)) w1 req)"

definition GetFollowersCount :: "'j json_lib \<Rightarrow> engine \<Rightarrow> nat \<Rightarrow> world \<Rightarrow> (exn + int) \<times> world" where
  "GetFollowersCount J E UID w =
     (let (res, w1, req) =
            referer_get E (''https://friends.roblox.com/v1/users/'' @ to_string UID @ ''/followers/count'') w
      in leave (and_then res (parse_count J)) w1 req)"

definition GetFollowingsCount :: "'j json_lib \<Rightarrow> engine \<Rightarrow> nat \<Rightarrow> world \<Rightarrow> (exn + int) \<times> world" where
  "GetFollowingsCount J E UID w =
     (let (res, w1, req) =
            referer_get E (''https://friends.roblox.com/v1/users/'' @ to_string UID @ ''/followings/count'') w
      in leave (and_then res (parse_count J)) w1 req)"

text \<open>
  \<^verbatim>\<open>s.find(word, pos)\<close>: the first position from \<^verbatim>\<open>pos\<close> on at which \<^verbatim>\<open>word\<close> stands,
  \<^term>\<open>None\<close> for \<^verbatim>\<open>npos\<close>.
\<close>

function find_str :: "string \<Rightarrow> string \<Rightarrow> nat \<Rightarrow> nat option" where
  "find_str s w pos =
     (if length s < pos + length w then None
      else if take (length w) (drop pos s) = w then Some pos
      else find_str s w (Suc pos))"
  by pat_completeness auto

termination find_str
  by (relation "measure (\<lambda>(s, w, pos). Suc (length s) - pos)") auto

declare find_str.simps [simp del]

definition word :: string where "word = ''group''"

text \<open>
  The counting loop of \<^verbatim>\<open>GetGroupsCount\<close>, from the test \<^verbatim>\<open>pos != std::string::npos\<close> on;
  \<^verbatim>\<open>++count\<close> on the largest \<^verbatim>\<open>int\<close> is undefined.
\<close>

function groups_loop :: "string \<Rightarrow> nat option \<Rightarrow> int \<Rightarrow> exn + int" where
  "groups_loop s None count = Inr count"
| "groups_loop s (Some pos) count =
     (if count = 2 ^ 31 - 1 then Inl UndefinedBehaviour
      else groups_loop s (find_str s word (pos + length word)) (count + 1))"
  by pat_completeness auto

lemma find_str_bounds:
  "find_str s w pos = Some i \<Longrightarrow> pos \<le> i \<and> i + length w \<le> length s \<and> take (length w) (drop i s) = w"
proof (induction s w pos rule: find_str.induct)
  case (1 s w pos)
  show ?case
  proof (cases "length s < pos + length w")
    case True
    with "1.prems" show ?thesis by (simp add: find_str.simps)
  next
    case False
    show ?thesis
    proof (cases "take (length w) (drop pos s) = w")
      case True
      with False "1.prems" show ?thesis by (simp add: find_str.simps)
    next
      case nomatch: False
      with False "1.prems" have "find_str s w (Suc pos) = Some i"
        by (simp add: find_str.simps)
      with "1.IH" False nomatch show ?thesis by simp
    qed
  qed
qed

termination groups_loop
proof (relation "measure (\<lambda>(s, p, c). case p of None \<Rightarrow> 0 | Some pos \<Rightarrow> Suc (length s - pos))", goal_cases)
  case 1
  show ?case by simp
next
  case (2 s pos count)
  show ?case
  proof (cases "find_str s word (pos + length word)")
    case None
    then show ?thesis by simp
  next
    case (Some i)
    from find_str_bounds [OF Some] have "pos + length word \<le> i" "i + length word \<le> length s"
      by simp_all
    then show ?thesis using Some by (simp add: word_def)
  qed
qed

definition GetGroupsCount :: "engine \<Rightarrow> nat \<Rightarrow> world \<Rightarrow> (exn + int) \<times> world" where
  "GetGroupsCount E UID w =
     (let (res, w1, req) =
            referer_get E (''https://groups.roblox.com/v1/users/'' @ to_string UID @ ''/groups/roles'') w
      in leave (and_then res (\<lambda>res. groups_loop (data res) (find_str (data res) word 0) 0)) w1 req)"

section \<open>Any of the three dispatchers, and the setters as data\<close>

text \<open>\<^verbatim>\<open>get()\<close>, \<^verbatim>\<open>post()\<close> or \<^verbatim>\<open>request(method)\<close>, chosen by a value.\<close>

datatype dispatcher = ByGet | ByPost | ByRequest string

fun send :: "dispatcher \<Rightarrow> engine \<Rightarrow> world \<times> Request \<Rightarrow> (exn + Response) \<times> world \<times> Request" where
  "send ByGet = get"
| "send ByPost = post"
| "send (ByRequest m) = request m"

text \<open>A call of one of the setters of the request, as a value.\<close>

datatype mutation =
  SetUrl string | SetData string | SetHeader string string | SetCookie string string
  | RemoveHeader string | RemoveCookie string

fun mutate :: "mutation \<Rightarrow> Request \<Rightarrow> Request" where
  "mutate (SetUrl u) = set_url u"
| "mutate (SetData d) = set_data d"
| "mutate (SetHeader k v) = set_header k v"
| "mutate (SetCookie k v) = set_cookie k v"
| "mutate (RemoveHeader k) = remove_header k"
| "mutate (RemoveCookie k) = remove_cookie k"

section \<open>Notions of the specification\<close>

text \<open>
  The header list as the specification words it: one entry \<^verbatim>\<open><key>: <value>\<close> for each entry of
  the header map, then one \<^verbatim>\<open>Cookie: \<close> header joining the cookie map as \<^verbatim>\<open>k1=v1; k2=v2; \<close>.
\<close>

definition header_entry :: "string \<times> string \<Rightarrow> string" where
  "header_entry e = fst e @ '': '' @ snd e"

definition cookie_pair :: "string \<times> string \<Rightarrow> string" where
  "cookie_pair e = fst e @ ''='' @ snd e @ ''; ''"

definition header_list :: "headers_t \<Rightarrow> cookies_t \<Rightarrow> string list" where
  "header_list hs cs = map header_entry hs @ [''Cookie: '' @ concat (map cookie_pair cs)]"

text \<open>No key and no value of the map holds a NUL byte.\<close>

definition nul_free :: "headers_t \<Rightarrow> bool" where
  "nul_free m = (NUL \<notin> set (concat (map (\<lambda>e. fst e @ snd e) m)))"

text \<open>
  The states that a request can be in between two calls: the header-list pointer it keeps is
  null or a live allocation, and the allocator has handed out only addresses below the next
  one.
\<close>

definition wf_state :: "world \<Rightarrow> Request \<Rightarrow> bool" where
  "wf_state w r =
     ((\<forall>p \<in> dom (slists w). p < next_addr w) \<and>
      (case curl_headers r of None \<Rightarrow> True | Some p \<Rightarrow> p \<in> dom (slists w)))"

text \<open>The parts of what a dispatch leaves behind.\<close>

definition release :: "world \<Rightarrow> nat option \<Rightarrow> world" where
  "release w lst = (case lst of None \<Rightarrow> w | Some p \<Rightarrow> w\<lparr>slists := (slists w)(p := None)\<rparr>)"

definition prepared :: "Request \<Rightarrow> nat \<Rightarrow> easy_handle \<Rightarrow> easy_handle" where
  "prepared r a h = h\<lparr>opt_url := c_str (req_url r), opt_httpheader := Some a,
     opt_postfieldsize := length (req_data r), opt_postfields := req_data r, opt_verb := POST\<rparr>"

definition verb_of :: "dispatcher \<Rightarrow> easy_handle \<Rightarrow> easy_handle" where
  "verb_of m h = (case m of ByGet \<Rightarrow> h\<lparr>opt_verb := HTTPGET\<rparr> | ByPost \<Rightarrow> h\<lparr>opt_verb := POST\<rparr>
     | ByRequest s \<Rightarrow> h\<lparr>opt_customrequest := Some (c_str s)\<rparr>)"

definition transfer_of :: "easy_handle \<Rightarrow> string list \<Rightarrow> transfer" where
  "transfer_of h hl = \<lparr>t_url = opt_url h, t_headers = hl, t_postfields = opt_postfields h,
     t_postfieldsize = opt_postfieldsize h, t_verb = opt_verb h,
     t_customrequest = opt_customrequest h\<rparr>"

text \<open>
  The number of non-overlapping occurrences of a word in a text, counted from the left: an
  occurrence at the front counts and the count goes on behind it, otherwise it goes on one
  character further.
\<close>

function count_nonoverlapping :: "string \<Rightarrow> string \<Rightarrow> nat" where
  "count_nonoverlapping w s =
     (if w = [] \<or> length s < length w then 0
      else if take (length w) s = w then Suc (count_nonoverlapping w (drop (length w) s))
      else count_nonoverlapping w (tl s))"
  by pat_completeness auto

termination count_nonoverlapping
proof (relation "measure (\<lambda>(w, s). length s)", goal_cases)
  case 1
  show ?case by simp
next
  case (2 w s)
  then show ?case by (cases w) auto
next
  case (3 w s)
  then show ?case by (cases w) auto
qed

declare count_nonoverlapping.simps [simp del]

text \<open>
  The status-line part of \<^verbatim>\<open>execute\<close> on its own, with the same steps: the first line of the
  header block, the code and the message cut from it.
\<close>

definition first_line :: "string \<Rightarrow> string" where
  "first_line hdrs = snd (getline (stringstream hdrs) [] LF)"

definition status_line :: "string \<Rightarrow> exn + (int \<times> string)" where
  "status_line hdrs =
     (let line = first_line hdrs;
          index = int_of_size_t (size_t_of_pos (find_char line SP))
      in and_then (int_succ index) (\<lambda>i1.
         and_then (substr line (size_t_of_int i1) npos) (\<lambda>responsePart.
         let index2 = int_of_size_t (size_t_of_pos (find_char responsePart SP)) in
         and_then (int_succ index2) (\<lambda>i2.
         and_then (substr responsePart (size_t_of_int i2) npos) (\<lambda>msg.
         and_then (substr responsePart 0 (size_t_of_int index2)) (\<lambda>codeStr.
         and_then (stoi codeStr) (\<lambda>c. Inr (c, msg))))))))"

text \<open>The maps that the loop over the header lines of \<^verbatim>\<open>execute\<close> builds from a header block.\<close>

definition parsed_headers :: "string \<Rightarrow> cookies_t \<times> headers_t" where
  "parsed_headers hdrs = header_loop (stringstream hdrs) (first_line hdrs) ([], [])"

text \<open>An option set on the session behind a pointer that is not indeterminate.\<close>

definition on_handle :: "(easy_handle \<Rightarrow> easy_handle) \<Rightarrow> curl_ptr \<Rightarrow> curl_ptr" where
  "on_handle f c = (case c of Easy h \<Rightarrow> Easy (f h) | _ \<Rightarrow> c)"

text \<open>The request that every operation of the facade builds, and the header list it emits.\<close>

definition referer_request :: "engine \<Rightarrow> string \<Rightarrow> Request" where
  "referer_request E u =
     fst (initalize E (set_header ''Referer'' ''https://www.roblox.com/'' (Request1 u)))"

definition referer_list :: "string list" where
  "referer_list = [''Referer: https://www.roblox.com/'', ''Cookie: '']"

definition groups_url :: "nat \<Rightarrow> string" where
  "groups_url UID = ''https://groups.roblox.com/v1/users/'' @ to_string UID @ ''/groups/roles''"

text \<open>\<^verbatim>\<open>json::parse(body)["count"]\<close> as an \<^verbatim>\<open>int\<close>, on a body text.\<close>

definition decode_count :: "'j json_lib \<Rightarrow> string \<Rightarrow> exn + int" where
  "decode_count J body = and_then (json_parse J body) (\<lambda>j. and_then (json_at J j ''count'') (json_int J))"

text \<open>
  The cuts of the status line in terms of lists: what stands behind the first space of a
  text (the whole text when it has none), the code token and the message.
\<close>

definition response_part :: "string \<Rightarrow> string" where
  "response_part s = (if SP \<in> set s then tl (dropWhile (\<lambda>c. c \<noteq> SP) s) else s)"

definition code_token :: "string \<Rightarrow> string" where
  "code_token hdrs = takeWhile (\<lambda>c. c \<noteq> SP) (response_part (first_line hdrs))"

definition reason_text :: "string \<Rightarrow> string" where
  "reason_text hdrs = response_part (response_part (first_line hdrs))"

text \<open>
  The lines of a header block as the line reader cuts them at each newline, and for one
  line the key and the value that the loop body stores for it.
\<close>

function lines_of :: "string \<Rightarrow> string list" where
  "lines_of s =
     (if s = [] then []
      else takeWhile (\<lambda>c. c \<noteq> LF) s # lines_of (drop 1 (dropWhile (\<lambda>c. c \<noteq> LF) s)))"
  by pat_completeness auto

termination lines_of
proof (relation "measure length", goal_cases)
  case 1
  show ?case by simp
next
  case (2 s)
  have a: "length (dropWhile (\<lambda>c. c \<noteq> LF) s) \<le> length s" by (rule length_dropWhile_le)
  from 2 have b: "length s \<noteq> 0" by simp
  from a b have "length (dropWhile (\<lambda>c. c \<noteq> LF) s) - 1 < length s" by arith
  then show ?case by simp
qed

declare lines_of.simps [simp del]

definition line_key :: "string \<Rightarrow> string" where
  "line_key line = map tolower (takeWhile (\<lambda>c. c \<noteq> CHR '':'') line)"

definition line_value :: "string \<Rightarrow> string" where
  "line_value line =
     (let (s1, key) = getline (stringstream line) [] (CHR '':'');
          (s2, value1) = getline s1 [] SP;
          (s3, val) = getline s2 value1 CR
      in val)"

section \<open>Sample engines and requests\<close>

text \<open>An engine whose transfers break off after part of the reply has arrived.\<close>

definition partial_engine :: engine where
  "partial_engine = \<lparr>curl_easy_init = True,
     curl_perform = (\<lambda>n t. \<lparr>er_code = 18, er_body = ''{ '',
                                er_headers = ''HTTP/1.1 200 OK'' @ [CR, LF]\<rparr>)\<rparr>"

definition ready_request :: Request where
  "ready_request =
     fst (initalize partial_engine
       (set_header ''Referer'' ''https://www.roblox.com/''
         (Request1 ''https://friends.roblox.com/v1/users/1/friends/count'')))"

text \<open>An engine that answers every transfer with the reply of the friends-count scenario.\<close>

definition DQ :: char where "DQ = CHR 0x22"

definition count_engine :: engine where
  "count_engine = \<lparr>curl_easy_init = True,
     curl_perform = (\<lambda>n t. \<lparr>er_code = 0,
       er_body = ''{'' @ [DQ] @ ''count'' @ [DQ] @ '':42}'',
       er_headers = ''HTTP/1.1 200 OK'' @ [CR, LF] @ ''Content-Type: application/json'' @ [CR, LF] @ [CR, LF]\<rparr>)\<rparr>"

text \<open>Requests with one header, the second with a NUL byte in its value.\<close>

definition x_request :: Request where
  "x_request = fst (initalize count_engine (set_header ''X'' ''1'' (Request1 ''https://example.org/'')))"

definition nul_request :: Request where
  "nul_request = fst (initalize count_engine (set_header ''X'' (''a'' @ [NUL] @ ''b'') (Request1 ''https://example.org/'')))"

text \<open>
  The scenario of repeated dispatch: header \<^verbatim>\<open>X: 1\<close>, a GET, then \<^verbatim>\<open>X\<close> removed and
  \<^verbatim>\<open>Y: 2\<close> set, a second GET.
\<close>

definition first_get :: "(exn + Response) \<times> world \<times> Request" where
  "first_get = send ByGet count_engine (world0, x_request)"

definition second_get :: "(exn + Response) \<times> world \<times> Request" where
  "second_get = send ByGet count_engine
     (fst (snd first_get), fold mutate [RemoveHeader ''X'', SetHeader ''Y'' ''2''] (snd (snd first_get)))"

text \<open>
  A reply of the groups endpoint with one membership, whose group is named
  \<^verbatim>\<open>groupies\<close>; \<^term>\<open>q\<close> puts a text in double quotes.
\<close>

definition q :: "string \<Rightarrow> string" where
  "q s = CHR 0x22 # s @ [CHR 0x22]"

definition groups_body :: string where
  "groups_body = ''{'' @ q ''data'' @ '':[{'' @ q ''group'' @ '':{'' @ q ''name'' @ '':''
     @ q ''groupies'' @ ''},'' @ q ''role'' @ '':{'' @ q ''rank'' @ '':1}}]}''"

definition groups_reply :: engine_result where
  "groups_reply = \<lparr>er_code = 0, er_body = groups_body,
     er_headers = ''HTTP/1.1 200 OK'' @ [CR, LF] @ [CR, LF]\<rparr>"

definition groups_engine :: engine where
  "groups_engine = \<lparr>curl_easy_init = True, curl_perform = (\<lambda>n t. groups_reply)\<rparr>"

text \<open>A JSON library that refuses the empty text with its parse error 101.\<close>

definition strict_json :: "unit json_lib" where
  "strict_json = \<lparr>json_parse = (\<lambda>s. if s = [] then Inl (json_exception 101) else Inr ()),
     json_at = (\<lambda>j k. Inr ()), json_int = (\<lambda>j. Inr 42)\<rparr>"

text \<open>Replies of a transfer that came through, by their header block.\<close>

definition crlf :: string where "crlf = [CR, LF]"

definition reply :: "string \<Rightarrow> engine_result" where
  "reply hdrs = \<lparr>er_code = 0, er_body = ''{}'', er_headers = hdrs\<rparr>"

text \<open>An engine that reports success and delivers no header at all.\<close>

definition silent_engine :: engine where
  "silent_engine = \<lparr>curl_easy_init = True, curl_perform = (\<lambda>n t. reply [])\<rparr>"

text \<open>A header block with a line that has no colon.\<close>

definition stray_block :: string where
  "stray_block = ''HTTP/1.1 404 Not Found'' @ crlf @ ''no colon here'' @ crlf @ crlf"

text \<open>
  Header blocks with header lines that have no space behind the colon, and with a cookie
  header that has no space behind the semicolon.
\<close>

definition nospace_block :: string where
  "nospace_block = ''HTTP/1.1 200 OK'' @ crlf @ ''Foo:bar'' @ crlf @ ''Date:Mon, 01 Jan'' @ crlf @ crlf"

definition tight_cookie_block :: string where
  "tight_cookie_block = ''HTTP/1.1 200 OK'' @ crlf @ ''Set-Cookie: a=1;b=2'' @ crlf @ crlf"

text \<open>A plain header block, and one whose reason phrase holds a colon.\<close>

definition plain_block :: string where
  "plain_block = ''HTTP/1.1 200 OK'' @ crlf @ ''Foo: bar'' @ crlf @ crlf"

definition colon_block :: string where
  "colon_block = ''HTTP/1.1 200 OK: fine'' @ crlf @ crlf"

text \<open>A header block whose lines end in a bare newline.\<close>

definition lf_block :: string where
  "lf_block = ''HTTP/1.1 200 OK'' @ [LF] @ [LF]"

section \<open>What a dispatch does, in closed form\<close>

text \<open>The two loops of \<^verbatim>\<open>prepareHeaders\<close> and the list they leave in the store.\<close>

lemma and_then_assoc: "and_then (and_then x f) g = and_then x (\<lambda>y. and_then (f y) g)"
  by (cases x) simp_all

lemma cookies_loop_eq: "cookies_loop acc cs = acc @ concat (map cookie_pair cs)"
  by (induction cs arbitrary: acc) (auto simp: cookie_pair_def)

lemma headers_loop_Some:
  "slists w p = Some l \<Longrightarrow>
   headers_loop w (Some p) hs =
     Inr (w\<lparr>slists := (slists w)(p \<mapsto> l @ map (c_str \<circ> header_entry) hs)\<rparr>, Some p)"
proof (induction hs arbitrary: w l)
  case Nil
  then show ?case by (simp add: map_upd_triv)
next
  case (Cons e hs)
  obtain k v where e: "e = (k, v)" by (cases e)
  define x where "x = c_str (k @ '': '' @ v)"
  define w' where "w' = w\<lparr>slists := (slists w)(p \<mapsto> l @ [x])\<rparr>"
  have live: "slists w' p = Some (l @ [x])" by (simp add: w'_def)
  have "headers_loop w (Some p) (e # hs) = headers_loop w' (Some p) hs"
    using Cons.prems by (simp add: e curl_slist_append_def w'_def x_def)
  also have "\<dots> = Inr (w'\<lparr>slists := (slists w')(p \<mapsto> (l @ [x]) @ map (c_str \<circ> header_entry) hs)\<rparr>, Some p)"
    by (rule Cons.IH [OF live])
  also have "w'\<lparr>slists := (slists w')(p \<mapsto> (l @ [x]) @ map (c_str \<circ> header_entry) hs)\<rparr>
      = w\<lparr>slists := (slists w)(p \<mapsto> l @ map (c_str \<circ> header_entry) (e # hs))\<rparr>"
    by (simp add: w'_def x_def e header_entry_def)
  finally show ?case .
qed

lemma headers_loop_None:
  "headers_loop w None hs =
     Inr (if hs = [] then (w, None)
          else (w\<lparr>slists := (slists w)(next_addr w \<mapsto> map (c_str \<circ> header_entry) hs),
                  next_addr := Suc (next_addr w)\<rparr>, Some (next_addr w)))"
proof (cases hs)
  case Nil
  then show ?thesis by simp
next
  case (Cons e hs')
  obtain k v where e: "e = (k, v)" by (cases e)
  define x where "x = c_str (k @ '': '' @ v)"
  define w' where "w' = w\<lparr>slists := (slists w)(next_addr w \<mapsto> [x]), next_addr := Suc (next_addr w)\<rparr>"
  have live: "slists w' (next_addr w) = Some [x]" by (simp add: w'_def)
  have "headers_loop w None hs = headers_loop w' (Some (next_addr w)) hs'"
    by (simp add: Cons e curl_slist_append_def w'_def x_def)
  also have "\<dots> = Inr (w'\<lparr>slists := (slists w')(next_addr w \<mapsto> [x] @ map (c_str \<circ> header_entry) hs')\<rparr>,
      Some (next_addr w))"
    by (rule headers_loop_Some [OF live])
  also have "w'\<lparr>slists := (slists w')(next_addr w \<mapsto> [x] @ map (c_str \<circ> header_entry) hs')\<rparr>
      = w\<lparr>slists := (slists w)(next_addr w \<mapsto> map (c_str \<circ> header_entry) hs),
           next_addr := Suc (next_addr w)\<rparr>"
    by (simp add: w'_def x_def e Cons header_entry_def)
  finally show ?thesis by (simp add: Cons)
qed

lemma build_list0:
  "and_then (headers_loop w None hs) (\<lambda>(w2, lst). curl_slist_append w2 lst c) =
     Inr (w\<lparr>slists := (slists w)(next_addr w \<mapsto> map (c_str \<circ> header_entry) hs @ [c]),
            next_addr := Suc (next_addr w)\<rparr>, Some (next_addr w))"
  by (simp add: headers_loop_None curl_slist_append_def)

lemma build_list:
  "and_then (headers_loop w None hs) (\<lambda>(w2, lst). and_then (curl_slist_append w2 lst c) k) =
     k (w\<lparr>slists := (slists w)(next_addr w \<mapsto> map (c_str \<circ> header_entry) hs @ [c]),
          next_addr := Suc (next_addr w)\<rparr>, Some (next_addr w))"
proof -
  have "and_then (headers_loop w None hs) (\<lambda>(w2, lst). and_then (curl_slist_append w2 lst c) k) =
      and_then (and_then (headers_loop w None hs) (\<lambda>(w2, lst). curl_slist_append w2 lst c)) k"
    by (simp add: and_then_assoc split_def)
  then show ?thesis by (simp only: build_list0 and_then.simps)
qed

text \<open>Freeing the list of the dispatch before, when the pointer is null or live.\<close>

lemma free_live:
  assumes "case lst of None \<Rightarrow> True | Some p \<Rightarrow> p \<in> dom (slists w)"
  shows "(case lst of None \<Rightarrow> Inr w | Some p \<Rightarrow> curl_slist_free_all w p) = Inr (release w lst)"
  using assms by (auto simp: release_def curl_slist_free_all_def split: option.splits)

lemma release_next [simp]: "next_addr (release w lst) = next_addr w"
  by (simp add: release_def split: option.splits)

lemma release_performed [simp]: "performed (release w lst) = performed w"
  by (simp add: release_def split: option.splits)

text \<open>
  \<^verbatim>\<open>prepareHeaders\<close> and a whole dispatch on an initialised request: the transfer handed to
  the engine, the store and the request afterwards.
\<close>

lemma prepareHeaders_Easy:
  assumes live: "case curl_headers r of None \<Rightarrow> True | Some p \<Rightarrow> p \<in> dom (slists w)"
    and h: "curl r = Easy h"
  shows "prepareHeaders w r =
     Inr (release w (curl_headers r)
            \<lparr>slists := (slists (release w (curl_headers r)))
               (next_addr w \<mapsto> map c_str (header_list (req_headers r) (req_cookies r))),
             next_addr := Suc (next_addr w)\<rparr>,
          r\<lparr>curl_headers := Some (next_addr w),
            curl := Easy (h\<lparr>opt_httpheader := Some (next_addr w)\<rparr>)\<rparr>)"
  by (simp add: prepareHeaders_def free_live [OF live] build_list header_list_def
      cookies_loop_eq h setopt_def)

lemma dispatch_Easy:
  assumes live: "case curl_headers r of None \<Rightarrow> True | Some p \<Rightarrow> p \<in> dom (slists w)"
    and h: "curl r = Easy h"
  shows "send m E (w, r) =
     (let a = next_addr w;
          hl = map c_str (header_list (req_headers r) (req_cookies r));
          h' = verb_of m (prepared r a h);
          t = transfer_of h' hl
      in (execute_result (curl_perform E (length (performed w)) t),
          \<lparr>slists = (slists (release w (curl_headers r)))(a \<mapsto> hl), next_addr = Suc a,
           performed = performed w @ [t]\<rparr>,
          r\<lparr>curl_headers := Some a, curl := Easy h'\<rparr>))"
proof -
  have live': "case curl_headers (r\<lparr>curl := c\<rparr>) of None \<Rightarrow> True | Some p \<Rightarrow> p \<in> dom (slists w)" for c
    using live by simp
  have p: "prepare w r = Inr (release w (curl_headers r)
            \<lparr>slists := (slists (release w (curl_headers r)))
               (next_addr w \<mapsto> map c_str (header_list (req_headers r) (req_cookies r))),
             next_addr := Suc (next_addr w)\<rparr>,
          r\<lparr>curl_headers := Some (next_addr w), curl := Easy (prepared r (next_addr w) h)\<rparr>)"
    by (simp add: prepare_def h setopt_def prepareHeaders_Easy [OF live'] prepared_def)
  show ?thesis
    by (cases m)
      (simp_all add: get_def post_def request_def dispatch_def p setopt_def execute_def
        curl_easy_perform_def verb_of_def prepared_def transfer_of_def Let_def)
qed

text \<open>A string without NUL is its own C string.\<close>

lemma c_str_id: "NUL \<notin> set s \<Longrightarrow> c_str s = s"
  by (auto simp: c_str_def takeWhile_eq_all_conv)

lemma nul_free_entries:
  assumes "nul_free hs"
  shows "map c_str (map header_entry hs) = map header_entry hs"
  using assms
  by (induction hs) (auto simp: nul_free_def header_entry_def NUL_def intro!: c_str_id)

lemma nul_free_cookies:
  assumes "nul_free cs"
  shows "NUL \<notin> set (concat (map cookie_pair cs))"
  using assms
  by (induction cs) (auto simp: nul_free_def cookie_pair_def NUL_def)

lemma nul_free_header_list:
  assumes "nul_free hs" "nul_free cs"
  shows "map c_str (header_list hs cs) = header_list hs cs"
  using nul_free_entries [OF assms(1)] nul_free_cookies [OF assms(2)]
  by (simp add: header_list_def NUL_def c_str_id)

text \<open>The setters touch the maps, the URL and the body only; the states stay well-formed.\<close>

lemma mutate_keeps:
  "curl_headers (fold mutate ms r) = curl_headers r \<and> curl (fold mutate ms r) = curl r"
proof (induction ms arbitrary: r)
  case Nil
  show ?case by simp
next
  case (Cons m ms)
  have "curl_headers (mutate m r) = curl_headers r \<and> curl (mutate m r) = curl r"
    by (cases m)
      (simp_all add: set_url_def set_data_def set_header_def set_cookie_def
        remove_header_def remove_cookie_def)
  with Cons.IH [of "mutate m r"] show ?case by simp
qed

lemma wf_live:
  "wf_state w r \<Longrightarrow> case curl_headers r of None \<Rightarrow> True | Some p \<Rightarrow> p \<in> dom (slists w)"
  by (auto simp: wf_state_def split: option.splits)

lemma wf_initial: "wf_state world0 (Request3 u d hs)"
  by (simp add: wf_state_def world0_def Request3_def)

lemma wf_initalize: "wf_state w r \<Longrightarrow> wf_state w (fst (initalize E r))"
  by (simp add: wf_state_def initalize_def)

lemma wf_mutate: "wf_state w r \<Longrightarrow> wf_state w (fold mutate ms r)"
  using mutate_keeps [of ms r] by (simp add: wf_state_def)

lemma wf_send:
  assumes "wf_state w r" and "curl r = Easy h"
  shows "wf_state (fst (snd (send m E (w, r)))) (snd (snd (send m E (w, r))))"
  using assms(1)
  by (auto simp: dispatch_Easy [OF wf_live [OF assms(1)] assms(2)] Let_def wf_state_def
      release_def less_Suc_eq split: option.splits if_splits)

text \<open>The same for a pointer that is null: nothing is transferred.\<close>

lemma setopt_eq: "c \<noteq> Indeterminate \<Longrightarrow> setopt c f = Inr (on_handle f c)"
  by (cases c) (simp_all add: setopt_def on_handle_def)

lemma on_handle_det [simp]: "on_handle f c \<noteq> Indeterminate \<longleftrightarrow> c \<noteq> Indeterminate"
  by (cases c) (simp_all add: on_handle_def)

lemma prepareHeaders_eq:
  assumes live: "case curl_headers r of None \<Rightarrow> True | Some p \<Rightarrow> p \<in> dom (slists w)"
    and c: "curl r \<noteq> Indeterminate"
  shows "prepareHeaders w r =
     Inr (release w (curl_headers r)
            \<lparr>slists := (slists (release w (curl_headers r)))
               (next_addr w \<mapsto> map c_str (header_list (req_headers r) (req_cookies r))),
             next_addr := Suc (next_addr w)\<rparr>,
          r\<lparr>curl_headers := Some (next_addr w),
            curl := on_handle (\<lambda>h. h\<lparr>opt_httpheader := Some (next_addr w)\<rparr>) (curl r)\<rparr>)"
  by (simp add: prepareHeaders_def free_live [OF live] build_list header_list_def
      cookies_loop_eq setopt_eq [OF c])

lemma prepare_eq:
  assumes live: "case curl_headers r of None \<Rightarrow> True | Some p \<Rightarrow> p \<in> dom (slists w)"
    and c: "curl r \<noteq> Indeterminate"
  shows "prepare w r =
     Inr (release w (curl_headers r)
            \<lparr>slists := (slists (release w (curl_headers r)))
               (next_addr w \<mapsto> map c_str (header_list (req_headers r) (req_cookies r))),
             next_addr := Suc (next_addr w)\<rparr>,
          r\<lparr>curl_headers := Some (next_addr w),
            curl := on_handle (prepared r (next_addr w)) (curl r)\<rparr>)"
proof -
  have live': "case curl_headers (r\<lparr>curl := c'\<rparr>) of None \<Rightarrow> True | Some p \<Rightarrow> p \<in> dom (slists w)" for c'
    using live by simp
  show ?thesis
    using c
    by (cases "curl r")
      (simp_all add: prepare_def setopt_def prepareHeaders_eq [OF live'] prepared_def on_handle_def)
qed

lemma dispatch_Nullptr:
  assumes live: "case curl_headers r of None \<Rightarrow> True | Some p \<Rightarrow> p \<in> dom (slists w)"
    and n: "curl r = Nullptr"
  shows "send m E (w, r) =
     (execute_result \<lparr>er_code = CURLE_BAD_FUNCTION_ARGUMENT, er_body = [], er_headers = []\<rparr>,
      release w (curl_headers r)
        \<lparr>slists := (slists (release w (curl_headers r)))
           (next_addr w \<mapsto> map c_str (header_list (req_headers r) (req_cookies r))),
         next_addr := Suc (next_addr w)\<rparr>,
      r\<lparr>curl_headers := Some (next_addr w)\<rparr>)"
proof -
  have c: "curl r \<noteq> Indeterminate" using n by simp
  show ?thesis
    by (cases m)
      (simp_all add: get_def post_def request_def dispatch_def prepare_eq [OF live c] n
        on_handle_def setopt_def execute_def curl_easy_perform_def)
qed

text \<open>\<^verbatim>\<open>execute\<close> after a transfer that came through, and after one that did not.\<close>

lemma execute_result_ok:
  assumes "er_code er = CURLE_OK"
  shows "execute_result er =
    and_then (status_line (er_headers er)) (\<lambda>(c, msg).
      Inr \<lparr>curlCode = CURLE_OK, code = c, message = msg, data = er_body er,
           rawData = er_body er, rawHeaders = er_headers er,
           headers = snd (parsed_headers (er_headers er)),
           cookies = fst (parsed_headers (er_headers er))\<rparr>)"
  using assms
  by (simp add: execute_result_def status_line_def parsed_headers_def first_line_def
      and_then_assoc Let_def split_def Response0_def)

lemma execute_result_failed:
  assumes "er_code er \<noteq> CURLE_OK"
  shows "execute_result er = Inr (Response0\<lparr>curlCode := er_code er\<rparr>)"
  using assms by (simp add: execute_result_def)

lemma execute_result_data:
  assumes "execute_result er = Inr res"
  shows "curlCode res = er_code er \<and> data res = (if er_code er = CURLE_OK then er_body er else [])"
proof (cases "er_code er = CURLE_OK")
  case True
  from assms show ?thesis
    unfolding execute_result_ok [OF True]
    by (cases "status_line (er_headers er)") (auto simp: True)
next
  case False
  from assms show ?thesis
    unfolding execute_result_failed [OF False] using False by (auto simp: Response0_def)
qed

text \<open>What an operation of the facade gets back from its dispatch, and that it can leave.\<close>

lemma referer_request_fields:
  "req_headers (referer_request E u) = [(''Referer'', ''https://www.roblox.com/'')]"
  "req_cookies (referer_request E u) = []"
  "curl_headers (referer_request E u) = None"
  "curl (referer_request E u) = (if curl_easy_init E then Easy easy0 else Nullptr)"
  by (simp_all add: referer_request_def initalize_def set_header_def Request1_def Request3_def)

lemma referer_headers:
  "map c_str (header_list [(''Referer'', ''https://www.roblox.com/'')] []) = referer_list"
  by (simp add: header_list_def header_entry_def referer_list_def c_str_def NUL_def)

lemma referer_get_eq:
  "\<exists>w1 req.
     referer_get E u w =
       (execute_result
          (if curl_easy_init E
           then curl_perform E (length (performed w))
                  (transfer_of (verb_of ByGet (prepared (referer_request E u) (next_addr w) easy0))
                     referer_list)
           else \<lparr>er_code = CURLE_BAD_FUNCTION_ARGUMENT, er_body = [], er_headers = []\<rparr>),
        w1, req) \<and>
     (\<forall>result. fst (leave result w1 req) = result)"
proof -
  have live: "case curl_headers (referer_request E u) of None \<Rightarrow> True
      | Some p \<Rightarrow> p \<in> dom (slists w)"
    by (simp add: referer_request_fields)
  have g: "referer_get E u w = send ByGet E (w, referer_request E u)"
    by (simp add: referer_get_def referer_request_def)
  show ?thesis
  proof (cases "curl_easy_init E")
    case True
    then have h: "curl (referer_request E u) = Easy easy0" by (simp add: referer_request_fields)
    show ?thesis
      unfolding g dispatch_Easy [OF live h]
      by (simp add: Let_def referer_request_fields referer_headers True leave_def
          Request_dtor_def curl_slist_free_all_def)
  next
    case False
    then have n: "curl (referer_request E u) = Nullptr" by (simp add: referer_request_fields)
    show ?thesis
      unfolding g dispatch_Nullptr [OF live n]
      by (simp add: referer_request_fields False leave_def Request_dtor_def
          curl_slist_free_all_def n)
  qed
qed

text \<open>The counting loop counts the occurrences from the left, as long as an \<^verbatim>\<open>int\<close> holds them.\<close>

lemma groups_loop_count:
  "c \<le> 2 ^ 31 - 1 \<Longrightarrow>
   groups_loop s (find_str s word pos) c =
     (if c + int (count_nonoverlapping word (drop pos s)) \<le> 2 ^ 31 - 1
      then Inr (c + int (count_nonoverlapping word (drop pos s)))
      else Inl UndefinedBehaviour)"
proof (induction "length s - pos" arbitrary: pos c rule: less_induct)
  case less
  show ?case
  proof (cases "length s < pos + length word")
    case True
    then have "find_str s word pos = None" by (simp add: find_str.simps)
    moreover from True have "length (drop pos s) < length word" by (simp add: word_def)
    then have "count_nonoverlapping word (drop pos s) = 0"
      by (subst count_nonoverlapping.simps) simp
    ultimately show ?thesis using less.prems by simp
  next
    case False
    show ?thesis
    proof (cases "take (length word) (drop pos s) = word")
      case True
      with False have f: "find_str s word pos = Some pos" by (simp add: find_str.simps)
      from True False have n: "count_nonoverlapping word (drop pos s) =
          Suc (count_nonoverlapping word (drop (pos + length word) s))"
        by (subst count_nonoverlapping.simps) (auto simp: word_def add.commute)
      show ?thesis
      proof (cases "c = 2 ^ 31 - 1")
        case True
        then show ?thesis by (simp add: f n)
      next
        case c: False
        with less.prems have c1: "c + 1 \<le> 2 ^ 31 - 1" by simp
        from False have "length s - (pos + length word) < length s - pos"
          by (simp add: word_def)
        from less.hyps [OF this c1] c show ?thesis
          by (simp add: f n add.assoc)
      qed
    next
      case nomatch: False
      with False have f: "find_str s word pos = find_str s word (Suc pos)"
        by (subst find_str.simps) simp
      from nomatch False have n: "count_nonoverlapping word (drop pos s) =
          count_nonoverlapping word (drop (Suc pos) s)"
        by (subst count_nonoverlapping.simps) (auto simp: word_def drop_Suc tl_drop)
      from False have "length s - Suc pos < length s - pos" by (simp add: word_def)
      from less.hyps [OF this less.prems] show ?thesis by (simp add: f n)
    qed
  qed
qed

text \<open>The definitions that evaluate a stream and a status line on a given text.\<close>

lemmas eval_stream = stringstream_def getline_def good_def LF_def CR_def SP_def crlf_def
  header_loop.simps cookie_loop.simps

lemmas eval_status = size_t_of_pos_def int_of_size_t_def int_succ_def size_t_of_int_def
  substr_def npos_def stoi_def isspace_def isdigit_def digits_value_def

text \<open>Positions held in an \<^verbatim>\<open>int\<close>: exact below \<open>2\<^sup>3\<^sup>1\<close>, and \<^verbatim>\<open>npos\<close> becomes \<open>-1\<close>.\<close>

lemma find_char_None: "find_char s c = None \<longleftrightarrow> c \<notin> set s"
  by (induction s) auto

lemma find_char_Some:
  "find_char s c = Some i \<Longrightarrow>
     i < length s \<and> take i s = takeWhile (\<lambda>x. x \<noteq> c) s \<and> drop (Suc i) s = tl (dropWhile (\<lambda>x. x \<noteq> c) s)"
  by (induction s arbitrary: i) (auto split: if_splits)

lemma int_of_size_t_npos: "int_of_size_t npos = - 1"
  by (simp add: int_of_size_t_def npos_def)

lemma int_of_size_t_small: "0 \<le> n \<Longrightarrow> n < 2 ^ 31 \<Longrightarrow> int_of_size_t n = n"
  by (simp add: int_of_size_t_def)

lemma size_t_of_int_small: "0 \<le> n \<Longrightarrow> n < 2 ^ 31 \<Longrightarrow> size_t_of_int n = n"
  by (simp add: size_t_of_int_def)

lemma size_t_of_int_minus1: "size_t_of_int (- 1) = npos"
  by (simp add: size_t_of_int_def npos_def)

text \<open>The two cuts of the status line, for a line that an \<^verbatim>\<open>int\<close> can index.\<close>

lemma cut_after_space:
  assumes "int (length s) < 2 ^ 31"
  shows "and_then (int_succ (int_of_size_t (size_t_of_pos (find_char s SP))))
           (\<lambda>i. substr s (size_t_of_int i) npos) = Inr (response_part s)"
proof (cases "find_char s SP")
  case None
  then have n: "SP \<notin> set s" by (simp add: find_char_None)
  have a: "int_of_size_t (size_t_of_pos None) = - 1"
    by (simp add: size_t_of_pos_def int_of_size_t_npos)
  have b: "int_succ (- 1) = Inr 0" by (simp add: int_succ_def)
  have c: "size_t_of_int 0 = 0" by (simp add: size_t_of_int_def)
  have d: "substr s 0 npos = Inr s" using assms by (simp add: substr_def npos_def)
  show ?thesis by (simp add: None a b c d n response_part_def)
next
  case (Some i)
  from find_char_Some [OF Some] have i: "i < length s"
    and d: "drop (Suc i) s = tl (dropWhile (\<lambda>x. x \<noteq> SP) s)" by simp_all
  from Some have m: "SP \<in> set s" using find_char_None [of s SP] by auto
  from i assms have b: "int i < 2 ^ 31 - 1" by simp
  then have "int_of_size_t (int i) = int i" by (simp add: int_of_size_t_small)
  moreover from b have "size_t_of_int (int i + 1) = int i + 1" by (simp add: size_t_of_int_small)
  moreover have "substr s (int i + 1) npos = Inr (drop (Suc i) s)"
    using i assms by (simp add: substr_def npos_def nat_add_distrib)
  ultimately show ?thesis
    using b by (simp add: Some size_t_of_pos_def int_succ_def d m response_part_def)
qed

lemma cut_before_space:
  assumes "int (length s) < 2 ^ 31"
  shows "substr s 0 (size_t_of_int (int_of_size_t (size_t_of_pos (find_char s SP))))
           = Inr (takeWhile (\<lambda>c. c \<noteq> SP) s)"
proof (cases "find_char s SP")
  case None
  then have "SP \<notin> set s" by (simp add: find_char_None)
  then have t: "takeWhile (\<lambda>c. c \<noteq> SP) s = s" by (auto simp: takeWhile_eq_all_conv)
  have a: "size_t_of_int (int_of_size_t (size_t_of_pos None)) = npos"
    by (simp add: size_t_of_pos_def int_of_size_t_npos size_t_of_int_minus1)
  have d: "substr s 0 npos = Inr s" using assms by (simp add: substr_def npos_def)
  show ?thesis by (simp add: None a d t)
next
  case (Some i)
  from find_char_Some [OF Some] have i: "i < length s"
    and t: "take i s = takeWhile (\<lambda>x. x \<noteq> SP) s" by simp_all
  from i assms have b: "int i < 2 ^ 31" by simp
  then have "size_t_of_int (int_of_size_t (int i)) = int i"
    by (simp add: int_of_size_t_small size_t_of_int_small)
  then show ?thesis using i by (simp add: Some size_t_of_pos_def substr_def t)
qed

lemma response_part_length: "length (response_part s) \<le> length s"
proof -
  have "length (tl (dropWhile (\<lambda>c. c \<noteq> SP) s)) \<le> length (dropWhile (\<lambda>c. c \<noteq> SP) s)" by simp
  also have "\<dots> \<le> length s" by (rule length_dropWhile_le)
  finally show ?thesis by (simp add: response_part_def)
qed

lemma status_line_eq:
  assumes "int (length (first_line hdrs)) < 2 ^ 31"
  shows "status_line hdrs =
     and_then (stoi (code_token hdrs)) (\<lambda>c. Inr (c, reason_text hdrs))"
proof -
  define line where "line = first_line hdrs"
  define rp where "rp = response_part line"
  have l: "int (length line) < 2 ^ 31" using assms by (simp add: line_def)
  have r: "int (length rp) < 2 ^ 31" using l response_part_length [of line] by (simp add: rp_def)
  have "status_line hdrs =
      and_then (and_then (int_succ (int_of_size_t (size_t_of_pos (find_char line SP))))
                  (\<lambda>i. substr line (size_t_of_int i) npos)) (\<lambda>responsePart.
        and_then (and_then (int_succ (int_of_size_t (size_t_of_pos (find_char responsePart SP))))
                  (\<lambda>i. substr responsePart (size_t_of_int i) npos)) (\<lambda>msg.
        and_then (substr responsePart 0 (size_t_of_int (int_of_size_t (size_t_of_pos (find_char responsePart SP))))) (\<lambda>codeStr.
        and_then (stoi codeStr) (\<lambda>c. Inr (c, msg)))))"
    by (simp add: status_line_def Let_def and_then_assoc line_def)
  also have "\<dots> = and_then (stoi (takeWhile (\<lambda>c. c \<noteq> SP) rp)) (\<lambda>c. Inr (c, response_part rp))"
    by (simp add: cut_after_space [OF l] cut_after_space [OF r] cut_before_space [OF r] rp_def [symmetric])
  finally show ?thesis by (simp add: code_token_def reason_text_def rp_def line_def)
qed

lemma stoi_exn: "stoi s = Inl e \<Longrightarrow> e = invalid_argument \<or> e = out_of_range"
  by (auto simp: stoi_def Let_def split: if_splits)

text \<open>One read of a line reader: up to a delimiter, up to the end, and on a stream that is not good.\<close>

lemma getline_found:
  assumes "d \<notin> set a"
  shows "getline (stringstream (a @ d # rest)) str d = (stringstream rest, a)"
proof -
  from assms have "takeWhile (\<lambda>c. c \<noteq> d) (a @ d # rest) = a"
    and "dropWhile (\<lambda>c. c \<noteq> d) (a @ d # rest) = d # rest"
    by (induction a) auto
  then show ?thesis by (simp add: getline_def stringstream_def good_def)
qed

lemma getline_to_end:
  assumes "d \<notin> set a"
  shows "getline (stringstream a) str d = (\<lparr>buf = [], eofbit = True, failbit = (a = [])\<rparr>, a)"
  using assms by (simp add: getline_def stringstream_def good_def)

lemma getline_not_good:
  assumes "eofbit ss \<or> failbit ss"
  shows "getline ss str d = (ss\<lparr>failbit := True\<rparr>, str)"
  using assms by (auto simp: getline_def good_def)

text \<open>
  A header line with a space behind its first colon: the name is what stands before the
  colon, the value what stands between that space and the carriage return, colons
  included.
\<close>

lemma header_line_wellformed:
  assumes "CHR '':'' \<notin> set name" and "CR \<notin> set v"
  shows "header_line (name @ '': '' @ v @ CR # rest) st =
    (if map tolower name = ''set-cookie'' then cookie_loop (stringstream v) [] (fst st) else fst st,
     map_set (map tolower name) v (snd st))"
proof -
  have a: "getline (stringstream (name @ CHR '':'' # (SP # v @ CR # rest))) [] (CHR '':'')
      = (stringstream (SP # v @ CR # rest), name)"
    by (rule getline_found [OF assms(1)])
  have b: "getline (stringstream ([] @ SP # (v @ CR # rest))) [] SP = (stringstream (v @ CR # rest), [])"
    by (rule getline_found) simp
  have c: "getline (stringstream (v @ CR # rest)) [] CR = (stringstream rest, v)"
    by (rule getline_found [OF assms(2)])
  show ?thesis
    using a b c by (simp add: header_line_def Let_def SP_def)
qed

text \<open>
  A cookie value whose pairs are separated by a semicolon and a space: one pair, the last
  pair, and an attribute without a value that ends it; and the example of the
  specification.
\<close>

lemma cookie_loop_pair:
  assumes "CHR ''='' \<notin> set k" and "CHR '';'' \<notin> set v"
  shows "cookie_loop (stringstream (k @ ''='' @ v @ ''; '' @ rest)) c cks =
    cookie_loop (stringstream rest) k (map_set k v cks)"
proof -
  have a: "getline (stringstream (k @ CHR ''='' # (v @ CHR '';'' # SP # rest))) c (CHR ''='')
      = (stringstream (v @ CHR '';'' # SP # rest), k)"
    by (rule getline_found [OF assms(1)])
  have b: "getline (stringstream (v @ CHR '';'' # (SP # rest))) [] (CHR '';'') = (stringstream (SP # rest), v)"
    by (rule getline_found [OF assms(2)])
  have d: "getline (stringstream ([] @ SP # rest)) v SP = (stringstream rest, [])"
    by (rule getline_found) simp
  have f: "\<not> failbit (stringstream s)" for s by (simp add: stringstream_def)
  show ?thesis
    by (subst cookie_loop.simps) (use a b d in \<open>simp add: SP_def f\<close>)
qed

lemma cookie_loop_last_pair:
  assumes "CHR ''='' \<notin> set k" and "CHR '';'' \<notin> set v"
  shows "cookie_loop (stringstream (k @ ''='' @ v)) c cks = map_set k v cks"
proof -
  have a: "getline (stringstream (k @ CHR ''='' # v)) c (CHR ''='') = (stringstream v, k)"
    by (rule getline_found [OF assms(1)])
  have b: "getline (stringstream v) [] (CHR '';'') = (\<lparr>buf = [], eofbit = True, failbit = (v = [])\<rparr>, v)"
    by (rule getline_to_end [OF assms(2)])
  have d: "getline \<lparr>buf = [], eofbit = True, failbit = (v = [])\<rparr> v SP =
      (\<lparr>buf = [], eofbit = True, failbit = True\<rparr>, v)"
    by (simp add: getline_not_good)
  have e: "getline \<lparr>buf = [], eofbit = True, failbit = True\<rparr> k (CHR ''='') =
      (\<lparr>buf = [], eofbit = True, failbit = True\<rparr>, k)"
    by (simp add: getline_not_good)
  have f: "\<not> failbit (stringstream s)" for s by (simp add: stringstream_def)
  have "cookie_loop (stringstream (k @ ''='' @ v)) c cks =
      cookie_loop \<lparr>buf = [], eofbit = True, failbit = True\<rparr> k (map_set k v cks)"
    by (subst cookie_loop.simps) (use a b d in \<open>simp add: f\<close>)
  also have "\<dots> = map_set k v cks"
    by (subst cookie_loop.simps) (simp add: e)
  finally show ?thesis .
qed

lemma cookie_loop_flag:
  assumes "CHR ''='' \<notin> set k" and "k \<noteq> []"
  shows "cookie_loop (stringstream k) c cks = map_set k [] cks"
proof -
  have a: "getline (stringstream k) c (CHR ''='') = (\<lparr>buf = [], eofbit = True, failbit = False\<rparr>, k)"
    using getline_to_end [OF assms(1)] assms(2) by simp
  have b: "getline \<lparr>buf = [], eofbit = True, failbit = False\<rparr> [] (CHR '';'') =
      (\<lparr>buf = [], eofbit = True, failbit = True\<rparr>, [])"
    by (simp add: getline_not_good)
  have d: "getline \<lparr>buf = [], eofbit = True, failbit = True\<rparr> s x =
      (\<lparr>buf = [], eofbit = True, failbit = True\<rparr>, s)" for s x
    by (simp add: getline_not_good)
  have "cookie_loop (stringstream k) c cks =
      cookie_loop \<lparr>buf = [], eofbit = True, failbit = True\<rparr> k (map_set k [] cks)"
    by (subst cookie_loop.simps) (simp add: a b d)
  also have "\<dots> = map_set k [] cks"
    by (subst cookie_loop.simps) (simp add: d)
  finally show ?thesis .
qed

lemma set_cookie_example:
  "cookie_loop (stringstream ''sid=abc; Path=/; HttpOnly'') [] [] =
     [(''HttpOnly'', []), (''Path'', ''/''), (''sid'', ''abc'')]"
proof -
  have "cookie_loop (stringstream ''sid=abc; Path=/; HttpOnly'') [] [] =
      cookie_loop (stringstream ''Path=/; HttpOnly'') ''sid'' [(''sid'', ''abc'')]"
    using cookie_loop_pair [of "''sid''" "''abc''" "''Path=/; HttpOnly''" "[]" "[]"] by simp
  also have "\<dots> = cookie_loop (stringstream ''HttpOnly'') ''Path'' [(''Path'', ''/''), (''sid'', ''abc'')]"
    using cookie_loop_pair [of "''Path''" "''/''" "''HttpOnly''" "''sid''" "[(''sid'', ''abc'')]"] by simp
  also have "\<dots> = [(''HttpOnly'', []), (''Path'', ''/''), (''sid'', ''abc'')]"
    using cookie_loop_flag [of "''HttpOnly''" "''Path''" "[(''Path'', ''/''), (''sid'', ''abc'')]"] by simp
  finally show ?thesis .
qed

text \<open>The loop over the header lines is a fold of its body over the lines of the block.\<close>

lemma takeWhile_all: "c \<notin> set s \<Longrightarrow> takeWhile (\<lambda>x. x \<noteq> c) s = s"
  by (induction s) auto

lemma dropWhile_all: "c \<notin> set s \<Longrightarrow> dropWhile (\<lambda>x. x \<noteq> c) s = []"
  by (induction s) auto

lemma header_loop_lines:
  "header_loop (stringstream s) l st = fold header_line (lines_of s) st"
proof (induction s arbitrary: l st rule: lines_of.induct)
  case (1 s)
  show ?case
  proof (cases "s = []")
    case True
    then show ?thesis
      by (subst header_loop.simps, subst lines_of.simps)
        (simp add: getline_def stringstream_def good_def)
  next
    case False
    show ?thesis
    proof (cases "LF \<in> set s")
      case True
      then have g: "getline (stringstream s) l LF =
          (stringstream (drop 1 (dropWhile (\<lambda>c. c \<noteq> LF) s)), takeWhile (\<lambda>c. c \<noteq> LF) s)"
        by (simp add: getline_def stringstream_def good_def drop_Suc)
      have f: "\<not> failbit (stringstream x)" for x by (simp add: stringstream_def)
      have "header_loop (stringstream s) l st =
          header_loop (stringstream (drop 1 (dropWhile (\<lambda>c. c \<noteq> LF) s)))
            (takeWhile (\<lambda>c. c \<noteq> LF) s) (header_line (takeWhile (\<lambda>c. c \<noteq> LF) s) st)"
        by (subst header_loop.simps) (simp only: g f split if_False Let_def)
      also have "\<dots> = fold header_line (lines_of (drop 1 (dropWhile (\<lambda>c. c \<noteq> LF) s)))
            (header_line (takeWhile (\<lambda>c. c \<noteq> LF) s) st)"
        by (rule "1.IH" [OF False])
      also have "\<dots> = fold header_line (lines_of s) st"
        by (subst (2) lines_of.simps) (simp only: False if_False fold_simps)
      finally show ?thesis .
    next
      case nolf: False
      then have g: "getline (stringstream s) l LF = (\<lparr>buf = [], eofbit = True, failbit = False\<rparr>, s)"
        using False by (simp add: getline_def stringstream_def good_def)
      have e: "header_loop \<lparr>buf = [], eofbit = True, failbit = False\<rparr> s st' = st'" for st'
        by (subst header_loop.simps) (simp add: getline_def good_def)
      from nolf have t: "takeWhile (\<lambda>c. c \<noteq> LF) s = s" "dropWhile (\<lambda>c. c \<noteq> LF) s = []"
        by (simp_all add: takeWhile_all dropWhile_all)
      have n: "lines_of [] = []" by (subst lines_of.simps) simp
      show ?thesis
        by (subst header_loop.simps, subst lines_of.simps) (simp add: g e False t n)
    qed
  qed
qed

lemma first_line_eq: "first_line s = takeWhile (\<lambda>c. c \<noteq> LF) s"
  by (simp add: first_line_def getline_def stringstream_def good_def takeWhile_all)

lemma lines_of_first: "s \<noteq> [] \<Longrightarrow> lines_of s = first_line s # lines_of (drop 1 (dropWhile (\<lambda>c. c \<noteq> LF) s))"
  by (subst lines_of.simps) (simp add: first_line_eq)

text \<open>What one line stores, and what is found in the map after the lines.\<close>

lemma header_line_entry:
  "snd (header_line line st) = map_set (line_key line) (line_value line) (snd st)"
proof -
  have k: "snd (getline (stringstream line) [] (CHR '':'')) = takeWhile (\<lambda>c. c \<noteq> CHR '':'') line"
    by (simp add: getline_def stringstream_def good_def takeWhile_all)
  show ?thesis
    using k by (simp add: header_line_def Let_def split_def line_key_def line_value_def)
qed

lemma line_value_no_colon:
  assumes "CHR '':'' \<notin> set line"
  shows "line_value line = []"
proof -
  have a: "getline (stringstream line) [] (CHR '':'') =
      (\<lparr>buf = [], eofbit = True, failbit = (line = [])\<rparr>, line)"
    by (rule getline_to_end [OF assms])
  have b: "getline \<lparr>buf = [], eofbit = True, failbit = f\<rparr> [] d =
      (\<lparr>buf = [], eofbit = True, failbit = True\<rparr>, [])" for f d
    by (simp add: getline_not_good)
  show ?thesis by (simp add: line_value_def a b)
qed

lemma line_key_no_colon:
  assumes "CHR '':'' \<notin> set line"
  shows "line_key line = map tolower line"
  using assms by (simp add: line_key_def takeWhile_all)

lemma map_of_map_set: "map_of (map_set k v m) = (map_of m)(k \<mapsto> v)"
  by (induction m) (auto simp: fun_upd_twist)

lemma fold_header_line_other:
  "k \<notin> line_key ` set ls \<Longrightarrow>
   map_of (snd (fold header_line ls st)) k = map_of (snd st) k"
  by (induction ls arbitrary: st) (auto simp: header_line_entry map_of_map_set)

lemma fold_header_line_kept:
  "k \<in> line_key ` set ls \<or> map_of (snd st) k \<noteq> None \<Longrightarrow>
   map_of (snd (fold header_line ls st)) k \<noteq> None"
proof (induction ls arbitrary: st)
  case Nil
  then show ?case by simp
next
  case (Cons l ls)
  have "k \<in> line_key ` set ls \<or> map_of (snd (header_line l st)) k \<noteq> None"
    using Cons.prems by (auto simp: header_line_entry map_of_map_set)
  from Cons.IH [OF this] show ?case by simp
qed

lemma status_line_empty:
  assumes "first_line hdrs = []"
  shows "status_line hdrs = Inl invalid_argument"
proof -
  have "int (length (first_line hdrs)) < 2 ^ 31" by (simp add: assms)
  from status_line_eq [OF this] show ?thesis
    by (simp add: code_token_def assms response_part_def stoi_def)
qed

text \<open>A run of digits is read by \<^verbatim>\<open>std::stoi\<close> as its number, up to the first other character.\<close>

lemma isdigit_not_other:
  assumes "isdigit c"
  shows "\<not> isspace c" "c \<noteq> SP" "c \<noteq> LF" "c \<noteq> CR" "c \<noteq> CHR ''-''" "c \<noteq> CHR ''+''"
  using assms by (auto simp: isdigit_def isspace_def SP_def LF_def CR_def)

lemma isdigit_value: "isdigit c \<Longrightarrow> (0::int) \<le> of_char c - 48"
proof -
  assume "isdigit c"
  then have "(of_char (CHR ''0'') :: nat) \<le> of_char c"
    by (simp add: isdigit_def less_eq_char_def)
  then have "(48 :: nat) \<le> of_char c" by simp
  then have "(48 :: int) \<le> int (of_char c)" by linarith
  then show ?thesis by (simp add: of_nat_of_char)
qed

lemma digits_value_acc:
  "\<forall>c \<in> set ds. isdigit c \<Longrightarrow> 0 \<le> a \<Longrightarrow>
   (0::int) \<le> foldl (\<lambda>a c. 10 * a + (of_char c - 48)) a ds"
proof (induction ds arbitrary: a)
  case Nil
  then show ?case by simp
next
  case (Cons d ds)
  from Cons.prems isdigit_value [of d] have "0 \<le> 10 * a + (of_char d - 48)" by simp
  with Cons.IH [of "10 * a + (of_char d - 48)"] Cons.prems show ?case by simp
qed

lemma stoi_digits:
  assumes ne: "ds \<noteq> []" and dig: "\<forall>c \<in> set ds. isdigit c"
    and fits: "digits_value ds \<le> 2 ^ 31 - 1"
    and stop: "rest = [] \<or> \<not> isdigit (hd rest)"
  shows "stoi (ds @ rest) = Inr (digits_value ds)"
proof -
  obtain d ds' where d: "ds = d # ds'" using ne by (cases ds) auto
  with dig have dd: "isdigit d" by simp
  have s1: "dropWhile isspace (ds @ rest) = ds @ rest"
    using isdigit_not_other(1) [OF dd] by (simp add: d)
  have hd: "hd (ds @ rest) \<noteq> CHR ''-''" "hd (ds @ rest) \<noteq> CHR ''+''"
    using isdigit_not_other(5,6) [OF dd] by (simp_all add: d)
  have tw: "takeWhile isdigit (ds @ rest) = ds"
  proof (cases rest)
    case Nil
    with dig show ?thesis by (simp add: takeWhile_eq_all_conv)
  next
    case (Cons x xs)
    with stop have "\<not> isdigit x" by simp
    with dig show ?thesis by (simp add: Cons takeWhile_tail takeWhile_eq_all_conv)
  qed
  have nonneg: "0 \<le> digits_value ds"
    unfolding digits_value_def by (rule digits_value_acc [OF dig]) simp
  show ?thesis
    using ne hd nonneg fits by (simp add: stoi_def s1 tw Let_def)
qed

text \<open>
  A status line \<^verbatim>\<open>HTTP/x.y CODE REASON\<close>: the code is the number, the message the reason
  phrase with the carriage return of the line. Without the reason phrase the code is the
  number again, and the message is the code token with the carriage return.
\<close>

lemma status_line_wellformed:
  assumes v: "SP \<notin> set v" "LF \<notin> set v"
    and ds: "ds \<noteq> []" "\<forall>c \<in> set ds. isdigit c" "digits_value ds \<le> 2 ^ 31 - 1"
    and r: "LF \<notin> set r"
    and len: "int (length v + length ds + length r) < 2 ^ 31 - 3"
  shows "status_line (v @ [SP] @ ds @ [SP] @ r @ [CR, LF] @ rest) = Inr (digits_value ds, r @ [CR])"
proof -
  define hdrs where "hdrs = v @ [SP] @ ds @ [SP] @ r @ [CR, LF] @ rest"
  from ds(2) have nd: "SP \<notin> set ds" "LF \<notin> set ds"
    using isdigit_not_other(2,3) by blast+
  have "LF \<notin> set (v @ [SP] @ ds @ [SP] @ r @ [CR])"
    using v r nd by (simp add: LF_def SP_def CR_def)
  then have "takeWhile (\<lambda>c. c \<noteq> LF) ((v @ [SP] @ ds @ [SP] @ r @ [CR]) @ LF # rest)
      = v @ [SP] @ ds @ [SP] @ r @ [CR]"
    by (simp only: takeWhile_tail takeWhile_all simp_thms)
  then have f: "first_line hdrs = v @ [SP] @ ds @ [SP] @ r @ [CR]"
    by (simp add: first_line_eq hdrs_def)
  have "dropWhile (\<lambda>c. c \<noteq> SP) (v @ SP # (ds @ [SP] @ r @ [CR])) = SP # (ds @ [SP] @ r @ [CR])"
    using v(1) by (induction v) auto
  then have rp: "response_part (first_line hdrs) = ds @ [SP] @ r @ [CR]"
    by (simp add: response_part_def f)
  have "takeWhile (\<lambda>c. c \<noteq> SP) (ds @ SP # (r @ [CR])) = ds"
    using nd(1) by (induction ds) auto
  then have ct: "code_token hdrs = ds" by (simp add: code_token_def rp)
  have "dropWhile (\<lambda>c. c \<noteq> SP) (ds @ SP # (r @ [CR])) = SP # (r @ [CR])"
    using nd(1) by (induction ds) auto
  moreover have "reason_text hdrs = response_part (ds @ [SP] @ r @ [CR])"
    by (simp only: reason_text_def rp)
  ultimately have rt: "reason_text hdrs = r @ [CR]"
    by (simp add: response_part_def)
  have l: "int (length (first_line hdrs)) < 2 ^ 31" using len by (simp add: f)
  have "stoi (ds @ []) = Inr (digits_value ds)"
    by (rule stoi_digits [OF ds]) simp
  then show ?thesis
    unfolding hdrs_def [symmetric] status_line_eq [OF l] by (simp add: ct rt)
qed

lemma status_line_no_reason:
  assumes v: "SP \<notin> set v" "LF \<notin> set v"
    and ds: "ds \<noteq> []" "\<forall>c \<in> set ds. isdigit c" "digits_value ds \<le> 2 ^ 31 - 1"
    and len: "int (length v + length ds) < 2 ^ 31 - 2"
  shows "status_line (v @ [SP] @ ds @ [CR, LF] @ rest) = Inr (digits_value ds, ds @ [CR])"
proof -
  define hdrs where "hdrs = v @ [SP] @ ds @ [CR, LF] @ rest"
  from ds(2) have nd: "SP \<notin> set ds" "LF \<notin> set ds"
    using isdigit_not_other(2,3) by blast+
  have "LF \<notin> set (v @ [SP] @ ds @ [CR])"
    using v nd by (simp add: LF_def SP_def CR_def)
  then have "takeWhile (\<lambda>c. c \<noteq> LF) ((v @ [SP] @ ds @ [CR]) @ LF # rest) = v @ [SP] @ ds @ [CR]"
    by (simp only: takeWhile_tail takeWhile_all simp_thms)
  then have f: "first_line hdrs = v @ [SP] @ ds @ [CR]"
    by (simp add: first_line_eq hdrs_def)
  have "dropWhile (\<lambda>c. c \<noteq> SP) (v @ SP # (ds @ [CR])) = SP # (ds @ [CR])"
    using v(1) by (induction v) auto
  then have rp: "response_part (first_line hdrs) = ds @ [CR]"
    by (simp add: response_part_def f)
  have nsp: "SP \<notin> set (ds @ [CR])" using nd(1) by (simp add: SP_def CR_def)
  then have ct: "code_token hdrs = ds @ [CR]" by (simp add: code_token_def rp takeWhile_all)
  have "reason_text hdrs = response_part (ds @ [CR])"
    by (simp only: reason_text_def rp)
  then have rt: "reason_text hdrs = ds @ [CR]"
    using nsp by (simp add: response_part_def)
  have l: "int (length (first_line hdrs)) < 2 ^ 31" using len by (simp add: f)
  have "\<not> isdigit CR" by (simp add: isdigit_def CR_def)
  then have "stoi (ds @ [CR]) = Inr (digits_value ds)"
    by (intro stoi_digits [OF ds]) simp
  then show ?thesis
    unfolding hdrs_def [symmetric] status_line_eq [OF l] by (simp add: ct rt)
qed

text \<open>The first line of a block that goes on with a carriage return and a newline.\<close>

lemma tolower_CR: "tolower CR = CR"
  by (simp add: tolower_def CR_def)

lemma first_line_crlf:
  assumes "LF \<notin> set l"
  shows "first_line (l @ CR # LF # rest) = l @ [CR]"
proof -
  from assms have "LF \<notin> set (l @ [CR])" by (simp add: LF_def CR_def)
  then have "takeWhile (\<lambda>c. c \<noteq> LF) ((l @ [CR]) @ LF # rest) = l @ [CR]"
    by (simp only: takeWhile_tail takeWhile_all simp_thms)
  then show ?thesis by (simp add: first_line_eq)
qed

section \<open>The count operations after a transport failure\<close>

text \<open>
  C1, as amended. When the dispatch of a count operation ends in a transport failure (no
  session, or a transfer with a code other than \<^verbatim>\<open>CURLE_OK\<close>), the operation never looks at
  the code and goes on with the empty body: \<^verbatim>\<open>GetGroupsCount\<close> returns 0, and
  \<^verbatim>\<open>GetFriendsCount\<close>, \<^verbatim>\<open>GetFollowersCount\<close> and \<^verbatim>\<open>GetFollowingsCount\<close> return whatever the
  JSON library makes of the empty text and its \<^verbatim>\<open>count\<close>: with a library that refuses the
  empty text, its parse error.
\<close>

theorem count_operations_on_transport_failure:
  assumes "\<not> curl_easy_init E \<or> (\<forall>t. er_code (curl_perform E (length (performed w)) t) \<noteq> CURLE_OK)"
  shows "fst (GetGroupsCount E UID w) = Inr 0 \<and>
    fst (GetFriendsCount J E UID w) = decode_count J [] \<and>
    fst (GetFollowersCount J E UID w) = decode_count J [] \<and>
    fst (GetFollowingsCount J E UID w) = decode_count J []"
proof -
  have *: "\<exists>cc w1 req. referer_get E u w = (Inr (Response0\<lparr>curlCode := cc\<rparr>), w1, req) \<and>
      (\<forall>result :: exn + int. fst (leave result w1 req) = result)" for u
  proof -
    from referer_get_eq [of E u w] obtain w1 req er where
      g: "referer_get E u w = (execute_result er, w1, req)"
      and l: "\<And>result :: exn + int. fst (leave result w1 req) = result"
      and f: "er_code er \<noteq> CURLE_OK"
      using assms by (auto simp: CURLE_OK_def CURLE_BAD_FUNCTION_ARGUMENT_def split: if_splits)
    then show ?thesis by (auto simp: execute_result_failed [OF f])
  qed
  have e: "find_str [] word 0 = None" by (simp add: find_str.simps word_def)
  show ?thesis
  proof (intro conjI)
    from * [of "groups_url UID"] show "fst (GetGroupsCount E UID w) = Inr 0"
      by (auto simp: GetGroupsCount_def groups_url_def Response0_def e)
    from * [of "''https://friends.roblox.com/v1/users/'' @ to_string UID @ ''/friends/count''"]
    show "fst (GetFriendsCount J E UID w) = decode_count J []"
      by (auto simp: GetFriendsCount_def parse_count_def decode_count_def Response0_def)
    from * [of "''https://friends.roblox.com/v1/users/'' @ to_string UID @ ''/followers/count''"]
    show "fst (GetFollowersCount J E UID w) = decode_count J []"
      by (auto simp: GetFollowersCount_def parse_count_def decode_count_def Response0_def)
    from * [of "''https://friends.roblox.com/v1/users/'' @ to_string UID @ ''/followings/count''"]
    show "fst (GetFollowingsCount J E UID w) = decode_count J []"
      by (auto simp: GetFollowingsCount_def parse_count_def decode_count_def Response0_def)
  qed
qed

theorem count_operations_on_transport_failure_witness:
  "fst (GetGroupsCount partial_engine 1 world0) = Inr 0 \<and>
   fst (GetFriendsCount strict_json partial_engine 1 world0) = Inl (json_exception 101) \<and>
   fst (GetFollowersCount strict_json partial_engine 1 world0) = Inl (json_exception 101) \<and>
   fst (GetFollowingsCount strict_json partial_engine 1 world0) = Inl (json_exception 101)"
proof -
  have "\<not> curl_easy_init partial_engine \<or>
      (\<forall>t. er_code (curl_perform partial_engine (length (performed world0)) t) \<noteq> CURLE_OK)"
    by (simp add: partial_engine_def CURLE_OK_def)
  from count_operations_on_transport_failure [OF this, of 1 strict_json] show ?thesis
    by (simp add: decode_count_def strict_json_def)
qed

text \<open>
  As the claim states it, it fails: after a transfer that broke off with code 18,
  \<^verbatim>\<open>GetGroupsCount\<close> returns the count 0.
\<close>

theorem groups_count_zero_counterexample:
  "fst (GetGroupsCount partial_engine 1 world0) = Inr 0 \<and>
   er_code (curl_perform partial_engine 0 (transfer_of easy0 [])) = 18 \<and> 18 \<noteq> CURLE_OK"
proof -
  have l: "case curl_headers (referer_request partial_engine u) of None \<Rightarrow> True
      | Some p \<Rightarrow> p \<in> dom (slists world0)" for u
    by (simp add: referer_request_fields)
  have h: "curl (referer_request partial_engine u) = Easy easy0" for u
    by (simp add: referer_request_fields partial_engine_def)
  have g: "referer_get partial_engine u world0 = send ByGet partial_engine (world0, referer_request partial_engine u)" for u
    by (simp add: referer_get_def referer_request_def)
  have f: "execute_result (curl_perform partial_engine n t) = Inr (Response0\<lparr>curlCode := 18\<rparr>)" for n t
    by (simp add: execute_result_def partial_engine_def CURLE_OK_def)
  have e: "find_str [] word 0 = None" by (simp add: find_str.simps word_def)
  have "fst (GetGroupsCount partial_engine 1 world0) = Inr 0"
    unfolding GetGroupsCount_def g dispatch_Easy [OF l h]
    by (simp add: Let_def f leave_def Request_dtor_def curl_slist_free_all_def world0_def
        Response0_def e)
  moreover have "er_code (curl_perform partial_engine 0 (transfer_of easy0 [])) = 18"
    by (simp add: partial_engine_def)
  ultimately show ?thesis by (simp add: CURLE_OK_def)
qed

section \<open>Exceptions of the response parser\<close>

text \<open>
  C2, as amended. For a transfer that came through and a header block whose first line an
  \<^verbatim>\<open>int\<close> can index, \<^verbatim>\<open>execute\<close> returns a response exactly when \<^verbatim>\<open>std::stoi\<close> accepts the
  code token of the first line (the text between its first and its second space); it then
  holds the best-effort result of the loops over the header lines and the cookies, which
  cannot throw. Otherwise \<^verbatim>\<open>execute\<close> throws what \<^verbatim>\<open>std::stoi\<close> throws,
  \<^verbatim>\<open>std::invalid_argument\<close> or \<^verbatim>\<open>std::out_of_range\<close>, and nothing else.
\<close>

theorem execute_result_total:
  assumes ok: "er_code er = CURLE_OK"
    and len: "int (length (first_line (er_headers er))) < 2 ^ 31"
  shows "execute_result er =
    (case stoi (code_token (er_headers er)) of
       Inl e \<Rightarrow> Inl e
     | Inr c \<Rightarrow>
         Inr \<lparr>curlCode = CURLE_OK, code = c, message = reason_text (er_headers er),
              data = er_body er, rawData = er_body er, rawHeaders = er_headers er,
              headers = snd (parsed_headers (er_headers er)),
              cookies = fst (parsed_headers (er_headers er))\<rparr>) \<and>
    (\<forall>e. execute_result er = Inl e \<longrightarrow> e = invalid_argument \<or> e = out_of_range)"
proof -
  have "execute_result er =
    (case stoi (code_token (er_headers er)) of
       Inl e \<Rightarrow> Inl e
     | Inr c \<Rightarrow>
         Inr \<lparr>curlCode = CURLE_OK, code = c, message = reason_text (er_headers er),
              data = er_body er, rawData = er_body er, rawHeaders = er_headers er,
              headers = snd (parsed_headers (er_headers er)),
              cookies = fst (parsed_headers (er_headers er))\<rparr>)"
    unfolding execute_result_ok [OF ok] status_line_eq [OF len]
    by (cases "stoi (code_token (er_headers er))") simp_all
  then show ?thesis
    by (auto dest: stoi_exn split: sum.splits)
qed

theorem execute_result_total_witness:
  "map_sum id (\<lambda>r. (code r, message r, headers r)) (execute_result (reply stray_block)) =
   Inr (404, ''Not Found'' @ [CR],
        [([CR], []), (''http/1.1 404 not found'' @ [CR], []), (''no colon here'' @ [CR], [])])"
proof -
  have ok: "er_code (reply stray_block) = CURLE_OK" by (simp add: reply_def CURLE_OK_def)
  have f: "first_line stray_block = ''HTTP/1.1 404 Not Found'' @ [CR]"
    by (simp add: stray_block_def first_line_def eval_stream)
  have len: "int (length (first_line (er_headers (reply stray_block)))) < 2 ^ 31"
    by (simp add: reply_def f)
  have c: "stoi (code_token stray_block) = Inr 404"
    by (simp add: code_token_def f response_part_def eval_stream eval_status)
  have m: "reason_text stray_block = ''Not Found'' @ [CR]"
    by (simp add: reason_text_def f response_part_def eval_stream)
  have p: "snd (parsed_headers stray_block) =
      [([CR], []), (''http/1.1 404 not found'' @ [CR], []), (''no colon here'' @ [CR], [])]"
    by (simp add: parsed_headers_def f stray_block_def header_line_def tolower_def eval_stream)
  from execute_result_total [OF ok len] show ?thesis
    by (simp add: reply_def c m p)
qed

text \<open>
  As the claim states it, it fails: an empty header block, a first line without a space,
  a status code that is no number and one that is too large each end in an exception.
\<close>

theorem malformed_status_line_counterexample:
  "fst (execute silent_engine world0 ready_request) = Inl invalid_argument \<and>
   execute_result (reply (''garbage'' @ crlf)) = Inl invalid_argument \<and>
   execute_result (reply (''HTTP/1.1 abc OK'' @ crlf)) = Inl invalid_argument \<and>
   execute_result (reply (''HTTP/1.1 99999999999 OK'' @ crlf)) = Inl out_of_range"
proof -
  have r: "curl ready_request = Easy easy0"
    by (simp add: ready_request_def initalize_def partial_engine_def)
  have "execute_result (reply []) = Inl invalid_argument"
    by (simp add: execute_result_def reply_def CURLE_OK_def Response0_def eval_stream eval_status)
  then have "fst (execute silent_engine world0 ready_request) = Inl invalid_argument"
    by (simp add: execute_def curl_easy_perform_def r easy0_def silent_engine_def)
  moreover have "execute_result (reply (''garbage'' @ crlf)) = Inl invalid_argument"
    by (simp add: execute_result_def reply_def CURLE_OK_def Response0_def eval_stream eval_status)
  moreover have "execute_result (reply (''HTTP/1.1 abc OK'' @ crlf)) = Inl invalid_argument"
    by (simp add: execute_result_def reply_def CURLE_OK_def Response0_def eval_stream eval_status)
  moreover have "execute_result (reply (''HTTP/1.1 99999999999 OK'' @ crlf)) = Inl out_of_range"
    by (simp add: execute_result_def reply_def CURLE_OK_def Response0_def eval_stream eval_status)
  ultimately show ?thesis by simp
qed

section \<open>Transport failure\<close>

text \<open>
  C3. An initialised request in a well-formed state is dispatched by any of the three
  dispatchers. The dispatch hands the engine one transfer; when the engine returns for it
  a transport code other than \<^verbatim>\<open>CURLE_OK\<close>, the response that the dispatch returns carries
  that code and nothing else: the status code is 0, the message, the body and both raw
  buffers are empty, and so are the maps of headers and cookies, whatever the engine had
  written to the buffers.
\<close>

theorem send_transport_failure:
  assumes wf: "wf_state w r" and h: "curl r = Easy h"
    and t: "t = transfer_of (verb_of m (prepared r (next_addr w) h))
                 (map c_str (header_list (req_headers r) (req_cookies r)))"
    and er: "curl_perform E (length (performed w)) t = er"
    and failed: "er_code er \<noteq> CURLE_OK"
  shows "performed (fst (snd (send m E (w, r)))) = performed w @ [t] \<and>
    fst (send m E (w, r)) =
      Inr \<lparr>curlCode = er_code er, code = 0, message = [], data = [], rawData = [],
           rawHeaders = [], headers = [], cookies = []\<rparr>"
proof -
  note d = dispatch_Easy [OF wf_live [OF wf] h, of m E]
  have "execute_result er = Inr (Response0\<lparr>curlCode := er_code er\<rparr>)"
    by (rule execute_result_failed [OF failed])
  then show ?thesis
    unfolding d by (simp add: Let_def t [symmetric] er Response0_def)
qed

theorem send_transport_failure_witness:
  "map (\<lambda>m. fst (send m partial_engine (world0, ready_request)))
     [ByGet, ByPost, ByRequest ''DELETE''] =
   replicate 3 (Inr \<lparr>curlCode = 18, code = 0, message = [], data = [], rawData = [],
          rawHeaders = [], headers = [], cookies = []\<rparr>) \<and>
   length (performed (fst (snd (send ByGet partial_engine (world0, ready_request))))) = 1"
proof -
  have wf: "wf_state world0 ready_request"
    by (simp add: wf_state_def world0_def ready_request_def initalize_def set_header_def
        Request1_def Request3_def)
  have h: "curl ready_request = Easy easy0"
    by (simp add: ready_request_def initalize_def partial_engine_def)
  have er: "curl_perform partial_engine (length (performed world0)) t =
      \<lparr>er_code = 18, er_body = ''{ '', er_headers = ''HTTP/1.1 200 OK'' @ [CR, LF]\<rparr>" for t
    by (simp add: partial_engine_def)
  have failed: "er_code \<lparr>er_code = 18, er_body = ''{ '',
      er_headers = ''HTTP/1.1 200 OK'' @ [CR, LF]\<rparr> \<noteq> CURLE_OK"
    by (simp add: CURLE_OK_def)
  have p0: "performed world0 = []" by (simp add: world0_def)
  note s = send_transport_failure [OF wf h refl er failed]
  from s [of ByGet] s [of ByPost] s [of "ByRequest ''DELETE''"] show ?thesis
    by (simp add: numeral_3_eq_3 p0)
qed

section \<open>The status line\<close>

text \<open>
  C4, on the code. For the header block that starts with \<^verbatim>\<open>HTTP/1.1 200 OK\<close> the status code
  is 200 and the message is \<^verbatim>\<open>OK\<close> followed by the carriage return: the line reader takes
  off the newline only. Without a reason phrase, \<^verbatim>\<open>HTTP/1.1 200\<close>, the status code is 200
  again and the message is the code token with the carriage return, not the empty text.
\<close>

theorem status_message_keeps_cr:
  "map_sum id (\<lambda>r. (code r, message r))
     (execute_result (reply (''HTTP/1.1 200 OK'' @ crlf @ crlf))) = Inr (200, ''OK'' @ [CR]) \<and>
   map_sum id (\<lambda>r. (code r, message r))
     (execute_result (reply (''HTTP/1.1 200'' @ crlf @ crlf))) = Inr (200, ''200'' @ [CR])"
  by (simp add: execute_result_def reply_def CURLE_OK_def Response0_def eval_stream eval_status
      header_line_def tolower_def)

section \<open>Header lines\<close>

text \<open>
  C5, on the code. The line \<^verbatim>\<open>Foo:bar\<close>, with no space behind the colon, gets the value
  \<^verbatim>\<open>bar\<close> with its carriage return, not the empty value: the read that is to consume one
  space runs to the end of the line, and the read of the value then fails and leaves what
  was consumed. In \<^verbatim>\<open>Date:Mon, 01 Jan\<close> that first read swallows \<^verbatim>\<open>Mon,\<close> with the space
  behind it, and the value is \<^verbatim>\<open>01 Jan\<close>.
\<close>

theorem header_without_space_keeps_text:
  "header_line (''Foo:bar'' @ [CR]) ([], []) = ([], [(''foo'', ''bar'' @ [CR])]) \<and>
   header_line (''Date:Mon, 01 Jan'' @ [CR]) ([], []) = ([], [(''date'', ''01 Jan'')]) \<and>
   map_sum id headers (execute_result (reply nospace_block)) =
     Inr [([CR], []), (''date'', ''01 Jan''), (''foo'', ''bar'' @ [CR]),
          (''http/1.1 200 ok'' @ [CR], [])]"
  by (simp add: execute_result_def reply_def nospace_block_def CURLE_OK_def Response0_def
      eval_stream eval_status header_line_def tolower_def)

section \<open>Cookies\<close>

text \<open>
  C6, on the code. In the cookie value \<^verbatim>\<open>a=1;b=2\<close>, with no space behind the semicolon, the
  pair \<^verbatim>\<open>b=2\<close> is not recorded: the read that is to skip one space skips everything up to
  the next space or the end. In \<^verbatim>\<open>a=1;b=2; c=3\<close> it skips \<^verbatim>\<open>b=2;\<close> and the third pair is
  recorded.
\<close>

theorem cookie_without_space_is_lost:
  "cookie_loop (stringstream ''a=1;b=2'') [] [] = [(''a'', ''1'')] \<and>
   cookie_loop (stringstream ''a=1;b=2; c=3'') [] [] = [(''a'', ''1''), (''c'', ''3'')] \<and>
   map_sum id cookies (execute_result (reply tight_cookie_block)) = Inr [(''a'', ''1'')]"
  by (simp add: execute_result_def reply_def tight_cookie_block_def CURLE_OK_def Response0_def
      eval_stream eval_status header_line_def tolower_def)

section \<open>The header list handed to the engine\<close>

text \<open>
  C7, as amended. On an initialised request in any well-formed state, each of the three
  dispatchers hands the engine exactly one transfer, whose header list has one entry per
  entry of the header map and then the one \<^verbatim>\<open>Cookie: \<close> header (also when the cookie map is
  empty). Every entry went through \<^verbatim>\<open>c_str()\<close>: it is the C string of \<^verbatim>\<open><key>: <value>\<close>,
  of \<^verbatim>\<open>Cookie: k1=v1; k2=v2; \<close>. When no key and no value holds a NUL byte, the list is
  the list of the specification.
\<close>

theorem dispatch_header_list:
  assumes "wf_state w r" and "curl r = Easy h"
  shows "\<exists>t. performed (fst (snd (send m E (w, r)))) = performed w @ [t] \<and>
    t_headers t = map c_str (header_list (req_headers r) (req_cookies r)) \<and>
    length (t_headers t) = length (req_headers r) + 1 \<and>
    last (t_headers t) = c_str (''Cookie: '' @ concat (map cookie_pair (req_cookies r))) \<and>
    (nul_free (req_headers r) \<and> nul_free (req_cookies r) \<longrightarrow>
       t_headers t = header_list (req_headers r) (req_cookies r))"
proof -
  from assms(1) have live: "case curl_headers r of None \<Rightarrow> True | Some p \<Rightarrow> p \<in> dom (slists w)"
    by (auto simp: wf_state_def split: option.splits)
  show ?thesis
    by (simp add: dispatch_Easy [OF live assms(2)] Let_def transfer_of_def nul_free_header_list)
      (simp add: header_list_def)
qed

theorem dispatch_header_list_witness:
  "map t_headers (performed (fst (snd (send ByGet count_engine (world0, x_request))))) =
     [[''X: 1'', ''Cookie: '']]"
proof -
  have wf: "wf_state world0 x_request"
    by (simp add: wf_state_def world0_def x_request_def initalize_def set_header_def Request1_def Request3_def)
  have h: "curl x_request = Easy easy0"
    by (simp add: x_request_def initalize_def count_engine_def)
  have m: "req_headers x_request = [(''X'', ''1'')]" "req_cookies x_request = []"
    by (simp_all add: x_request_def initalize_def set_header_def Request1_def Request3_def)
  from dispatch_header_list [OF wf h, of ByGet count_engine] show ?thesis
    by (auto simp: m header_list_def header_entry_def nul_free_def NUL_def world0_def)
qed

text \<open>
  As the claim states it, for every state of the maps, it fails: a value with a NUL byte is
  cut at that byte on its way into the list.
\<close>

theorem nul_header_counterexample:
  "map t_headers (performed (fst (snd (send ByGet count_engine (world0, nul_request))))) =
     [[''X: a'', ''Cookie: '']] \<and>
   header_list (req_headers nul_request) (req_cookies nul_request) =
     [''X: a'' @ [NUL] @ ''b'', ''Cookie: ''] \<and>
   ''X: a'' \<noteq> ''X: a'' @ [NUL] @ ''b''"
proof -
  have live: "case curl_headers nul_request of None \<Rightarrow> True | Some p \<Rightarrow> p \<in> dom (slists world0)"
    by (simp add: nul_request_def initalize_def set_header_def Request1_def Request3_def)
  have h: "curl nul_request = Easy easy0"
    by (simp add: nul_request_def initalize_def count_engine_def)
  have m: "req_headers nul_request = [(''X'', ''a'' @ [NUL] @ ''b'')]" "req_cookies nul_request = []"
    by (simp_all add: nul_request_def initalize_def set_header_def Request1_def Request3_def)
  note d = dispatch_Easy [OF live h, of ByGet count_engine]
  show ?thesis
    unfolding d
    by (simp add: Let_def transfer_of_def m header_list_def
        header_entry_def c_str_def NUL_def world0_def)
qed

section \<open>Two dispatches of one request\<close>

text \<open>
  C8. A request is dispatched, its setters are called any number of times, and it is
  dispatched again. The header list of each transfer is the list built from the header and
  cookie maps as they are when that dispatch starts. The list of the first dispatch is
  freed by the second (its address is no longer live), the second list is a new
  allocation, and the request leaves no other allocation behind.
\<close>

theorem repeated_dispatch_headers:
  assumes wf: "wf_state w r" and h: "curl r = Easy h"
    and d1: "send m1 E (w, r) = (res1, w1, r1)"
    and d2: "send m2 E (w1, fold mutate ms r1) = (res2, w2, r2)"
  shows "\<exists>t1 t2 a1 a2. performed w2 = performed w @ [t1, t2] \<and>
    t_headers t1 = map c_str (header_list (req_headers r) (req_cookies r)) \<and>
    t_headers t2 = map c_str (header_list (req_headers (fold mutate ms r1))
                                          (req_cookies (fold mutate ms r1))) \<and>
    curl_headers r1 = Some a1 \<and> slists w1 a1 = Some (t_headers t1) \<and>
    curl_headers r2 = Some a2 \<and> slists w2 a2 = Some (t_headers t2) \<and>
    slists w2 a1 = None \<and>
    dom (slists w2) = (dom (slists w) - set_option (curl_headers r)) \<union> {a2}"
proof -
  note e1 = dispatch_Easy [OF wf_live [OF wf] h, of m1 E]
  define hl1 where "hl1 = map c_str (header_list (req_headers r) (req_cookies r))"
  define h1 where "h1 = verb_of m1 (prepared r (next_addr w) h)"
  define t1 where "t1 = transfer_of h1 hl1"
  from d1 have w1: "w1 = \<lparr>slists = (slists (release w (curl_headers r)))(next_addr w \<mapsto> hl1),
      next_addr = Suc (next_addr w), performed = performed w @ [t1]\<rparr>"
    and r1: "r1 = r\<lparr>curl_headers := Some (next_addr w), curl := Easy h1\<rparr>"
    unfolding e1 by (simp_all add: Let_def hl1_def h1_def t1_def)
  define r1' where "r1' = fold mutate ms r1"
  have k: "curl_headers r1' = Some (next_addr w)" "curl r1' = Easy h1"
    using mutate_keeps [of ms r1] by (simp_all add: r1'_def r1)
  have live1: "case curl_headers r1' of None \<Rightarrow> True | Some p \<Rightarrow> p \<in> dom (slists w1)"
    by (simp add: k w1)
  note e2 = dispatch_Easy [OF live1 k(2), of m2 E]
  define hl2 where "hl2 = map c_str (header_list (req_headers r1') (req_cookies r1'))"
  define h2 where "h2 = verb_of m2 (prepared r1' (next_addr w1) h1)"
  define t2 where "t2 = transfer_of h2 hl2"
  from d2 have w2: "w2 = \<lparr>slists = (slists (release w1 (curl_headers r1')))(next_addr w1 \<mapsto> hl2),
      next_addr = Suc (next_addr w1), performed = performed w1 @ [t2]\<rparr>"
    and r2: "r2 = r1'\<lparr>curl_headers := Some (next_addr w1), curl := Easy h2\<rparr>"
    unfolding r1'_def [symmetric] e2 by (simp_all add: Let_def hl2_def h2_def t2_def)
  have fresh: "next_addr w \<notin> dom (slists w)"
    using wf by (auto simp: wf_state_def)
  have "performed w2 = performed w @ [t1, t2]" by (simp add: w2 w1)
  moreover have "t_headers t1 = hl1" "t_headers t2 = hl2"
    by (simp_all add: t1_def t2_def transfer_of_def)
  moreover have "curl_headers r1 = Some (next_addr w)" "slists w1 (next_addr w) = Some hl1"
    by (simp_all add: r1 w1)
  moreover have "curl_headers r2 = Some (Suc (next_addr w))" "slists w2 (Suc (next_addr w)) = Some hl2"
    by (simp_all add: r2 w2 w1)
  moreover have "slists w2 (next_addr w) = None"
    by (simp add: w2 k release_def w1)
  moreover have "dom (slists w2) = (dom (slists w) - set_option (curl_headers r)) \<union> {Suc (next_addr w)}"
    using fresh by (auto simp: w2 k release_def w1 split: option.splits if_splits)
  ultimately show ?thesis
    unfolding hl1_def hl2_def r1'_def
    by (intro exI [of _ t1] exI [of _ t2] exI [of _ "next_addr w"] exI [of _ "Suc (next_addr w)"])
      simp
qed

theorem repeated_dispatch_headers_witness:
  "map t_headers (performed (fst (snd second_get))) =
     [[''X: 1'', ''Cookie: ''], [''Y: 2'', ''Cookie: '']] \<and>
   card (dom (slists (fst (snd second_get)))) = 1"
proof -
  have wf: "wf_state world0 x_request"
    by (simp add: wf_state_def world0_def x_request_def initalize_def set_header_def Request1_def Request3_def)
  have h: "curl x_request = Easy easy0"
    by (simp add: x_request_def initalize_def count_engine_def)
  have d1: "send ByGet count_engine (world0, x_request) =
      (fst first_get, fst (snd first_get), snd (snd first_get))"
    by (simp add: first_get_def)
  have d2: "send ByGet count_engine (fst (snd first_get),
      fold mutate [RemoveHeader ''X'', SetHeader ''Y'' ''2''] (snd (snd first_get))) =
      (fst second_get, fst (snd second_get), snd (snd second_get))"
    by (simp add: second_get_def)
  have m: "req_headers x_request = [(''X'', ''1'')]" "req_cookies x_request = []"
    "curl_headers x_request = None"
    by (simp_all add: x_request_def initalize_def set_header_def Request1_def Request3_def)
  have m1: "req_headers (snd (snd first_get)) = [(''X'', ''1'')]" "req_cookies (snd (snd first_get)) = []"
    unfolding first_get_def dispatch_Easy [OF wf_live [OF wf] h]
    by (simp_all add: Let_def m)
  from repeated_dispatch_headers [OF wf h d1 d2] show ?thesis
    by (auto simp: m m1 header_list_def header_entry_def remove_header_def set_header_def
        map_erase_def c_str_def NUL_def world0_def)
qed

section \<open>The count of groups\<close>

text \<open>
  C9. When the transfer comes through and the status line parses, \<^verbatim>\<open>GetGroupsCount\<close> returns
  the number of non-overlapping occurrences of the text \<^verbatim>\<open>group\<close> in the raw body (as long
  as that number fits an \<^verbatim>\<open>int\<close>); no document is decoded. In the sample reply one
  membership gives the count 2, for the group's name contains the word.
\<close>

theorem GetGroupsCount_counts:
  assumes init: "curl_easy_init E"
    and reply: "\<And>t. curl_perform E (length (performed w)) t = er"
    and ok: "er_code er = CURLE_OK"
    and parsed: "status_line (er_headers er) = Inr (c, msg)"
    and small: "int (count_nonoverlapping word (er_body er)) < 2 ^ 31"
  shows "fst (GetGroupsCount E UID w) = Inr (int (count_nonoverlapping word (er_body er)))"
proof -
  from referer_get_eq [of E "groups_url UID" w] obtain w1 req where
    g: "referer_get E (groups_url UID) w = (execute_result er, w1, req)"
    and l: "\<And>result :: exn + int. fst (leave result w1 req) = result"
    by (auto simp: init reply)
  from small have n: "int (count_nonoverlapping word (er_body er)) \<le> 2 ^ 31 - 1"
    by simp
  have "groups_loop (er_body er) (find_str (er_body er) word 0) 0
      = Inr (int (count_nonoverlapping word (er_body er)))"
    using groups_loop_count [of 0 "er_body er" 0] n by simp
  then show ?thesis
    using g l by (simp add: GetGroupsCount_def groups_url_def execute_result_ok [OF ok] parsed)
qed

theorem GetGroupsCount_counts_witness:
  "fst (GetGroupsCount groups_engine 7 world0) = Inr 2"
proof -
  have init: "curl_easy_init groups_engine" by (simp add: groups_engine_def)
  have reply: "curl_perform groups_engine (length (performed world0)) t = groups_reply" for t
    by (simp add: groups_engine_def)
  have ok: "er_code groups_reply = CURLE_OK" by (simp add: groups_reply_def CURLE_OK_def)
  have n: "count_nonoverlapping word groups_body = 2"
    by (simp add: count_nonoverlapping.simps word_def groups_body_def q_def)
  have b: "er_body groups_reply = groups_body" by (simp add: groups_reply_def)
  have parsed: "status_line (er_headers groups_reply) = Inr (200, ''OK'' @ [CR])"
    by (simp add: groups_reply_def status_line_def first_line_def getline_def stringstream_def
        good_def LF_def CR_def SP_def size_t_of_pos_def int_of_size_t_def int_succ_def
        size_t_of_int_def substr_def npos_def stoi_def isspace_def isdigit_def digits_value_def)
  have small: "int (count_nonoverlapping word (er_body groups_reply)) < 2 ^ 31"
    by (simp add: b n)
  from GetGroupsCount_counts [OF init reply ok parsed small, of 7] show ?thesis
    by (simp add: b n)
qed

section \<open>The status line among the headers\<close>

text \<open>
  C10, as amended. After a transfer that came through and a response that was returned, the
  header map of the response is what the loop body leaves after every line of the header
  block, the status line first and the blank line at the end included: every line has an
  entry under its key, the lowercased text before its first colon. The status line is the
  text before the first newline of the block: it ends in a carriage return when the block
  goes on with a carriage return and a newline there, and has none when the line ends in a
  bare newline. When the status line has no colon and no later line has its key, the whole
  lowercased status line is a key and maps to the empty text.
\<close>

theorem status_line_among_headers:
  assumes ok: "er_code er = CURLE_OK" and res: "execute_result er = Inr res"
  shows "headers res = snd (fold header_line (lines_of (er_headers er)) ([], [])) \<and>
    lines_of (er_headers er) \<noteq> [] \<and>
    hd (lines_of (er_headers er)) = first_line (er_headers er) \<and>
    (\<forall>l \<in> set (lines_of (er_headers er)). map_of (headers res) (line_key l) \<noteq> None) \<and>
    first_line (er_headers er) = takeWhile (\<lambda>c. c \<noteq> LF) (er_headers er) \<and>
    (\<forall>l rest. er_headers er = l @ CR # LF # rest \<and> LF \<notin> set l \<longrightarrow>
       map tolower (first_line (er_headers er)) = map tolower l @ [CR]) \<and>
    (CHR '':'' \<notin> set (first_line (er_headers er)) \<and>
     line_key (first_line (er_headers er)) \<notin> line_key ` set (tl (lines_of (er_headers er))) \<longrightarrow>
       map_of (headers res) (map tolower (first_line (er_headers er))) = Some [])"
proof -
  define hdrs where "hdrs = er_headers er"
  from res obtain c msg where s: "status_line hdrs = Inr (c, msg)"
    and h: "headers res = snd (parsed_headers hdrs)"
    unfolding execute_result_ok [OF ok] hdrs_def
    by (cases "status_line (er_headers er)") auto
  from s status_line_empty [of hdrs] have f: "first_line hdrs \<noteq> []" by auto
  then have ne: "hdrs \<noteq> []" by (auto simp: first_line_eq)
  note l = lines_of_first [OF ne]
  have hl: "headers res = snd (fold header_line (lines_of hdrs) ([], []))"
    by (simp add: h parsed_headers_def header_loop_lines)
  have every: "\<forall>l \<in> set (lines_of hdrs). map_of (headers res) (line_key l) \<noteq> None"
  proof
    fix l
    assume "l \<in> set (lines_of hdrs)"
    then have "line_key l \<in> line_key ` set (lines_of hdrs) \<or> map_of (snd ([], [])) (line_key l) \<noteq> None"
      by simp
    from fold_header_line_kept [OF this] show "map_of (headers res) (line_key l) \<noteq> None"
      by (simp add: hl)
  qed
  have first: "map_of (headers res) (map tolower (first_line hdrs)) = Some []"
    if nc: "CHR '':'' \<notin> set (first_line hdrs)"
      and fresh: "line_key (first_line hdrs) \<notin> line_key ` set (tl (lines_of hdrs))"
  proof -
    let ?rest = "lines_of (drop 1 (dropWhile (\<lambda>c. c \<noteq> LF) hdrs))"
    from fresh have fr: "line_key (first_line hdrs) \<notin> line_key ` set ?rest" by (simp add: l)
    have "map_of (headers res) (line_key (first_line hdrs)) =
        map_of (snd (fold header_line ?rest (header_line (first_line hdrs) ([], []))))
          (line_key (first_line hdrs))"
      unfolding hl by (subst l) simp
    also have "\<dots> = map_of (snd (header_line (first_line hdrs) ([], []))) (line_key (first_line hdrs))"
      by (rule fold_header_line_other [OF fr])
    also have "\<dots> = Some (line_value (first_line hdrs))"
      by (simp add: header_line_entry map_of_map_set)
    finally show ?thesis
      by (simp add: line_key_no_colon [OF nc] line_value_no_colon [OF nc])
  qed
  have cr: "\<forall>l rest. hdrs = l @ CR # LF # rest \<and> LF \<notin> set l \<longrightarrow>
      map tolower (first_line hdrs) = map tolower l @ [CR]"
    by (auto simp: first_line_crlf tolower_CR)
  show ?thesis
    unfolding hdrs_def [symmetric] using hl every first cr
    by (simp add: l first_line_eq [symmetric])
qed

theorem status_line_among_headers_witness:
  "map_sum id (\<lambda>r. (map_of (headers r) (''http/1.1 200 ok'' @ [CR]), map_of (headers r) [CR],
      map_of (headers r) ''foo'')) (execute_result (reply plain_block)) =
   Inr (Some [], Some [], Some ''bar'') \<and>
   map_sum id (\<lambda>r. map_of (headers r) ''http/1.1 200 ok'') (execute_result (reply lf_block)) =
   Inr (Some [])"
proof -
  have ok: "er_code (reply b) = CURLE_OK" for b by (simp add: reply_def CURLE_OK_def)
  have e: "er_headers (reply b) = b" for b by (simp add: reply_def)
  obtain res where res: "execute_result (reply plain_block) = Inr res"
    by (simp add: execute_result_def reply_def plain_block_def CURLE_OK_def Response0_def
        eval_stream eval_status header_line_def tolower_def)
  have f: "first_line plain_block = ''HTTP/1.1 200 OK'' @ [CR]"
    by (simp add: plain_block_def first_line_def eval_stream)
  have ls: "lines_of plain_block = [''HTTP/1.1 200 OK'' @ [CR], ''Foo: bar'' @ [CR], [CR]]"
    by (simp add: plain_block_def lines_of.simps crlf_def LF_def CR_def)
  have nc: "CHR '':'' \<notin> set (first_line plain_block)" by (simp add: f CR_def)
  have fresh: "line_key (first_line plain_block) \<notin> line_key ` set (tl (lines_of plain_block))"
    by (simp add: f ls line_key_def tolower_def CR_def)
  have others: "map_of (headers res) [CR] = Some [] \<and> map_of (headers res) ''foo'' = Some ''bar''"
    using res
    by (auto simp: execute_result_def reply_def plain_block_def CURLE_OK_def Response0_def
        eval_stream eval_status header_line_def tolower_def)
  from status_line_among_headers [OF ok res, unfolded e] nc fresh
  have "map_of (headers res) (map tolower (first_line plain_block)) = Some []" by blast
  then have "map_of (headers res) (''http/1.1 200 ok'' @ [CR]) = Some []"
    by (simp add: f tolower_def CR_def)
  with others have 1: "map_sum id (\<lambda>r. (map_of (headers r) (''http/1.1 200 ok'' @ [CR]),
      map_of (headers r) [CR], map_of (headers r) ''foo'')) (execute_result (reply plain_block)) =
      Inr (Some [], Some [], Some ''bar'')"
    by (simp add: res)
  obtain res' where res': "execute_result (reply lf_block) = Inr res'"
    by (simp add: execute_result_def reply_def lf_block_def CURLE_OK_def Response0_def
        eval_stream eval_status header_line_def tolower_def)
  have f': "first_line lf_block = ''HTTP/1.1 200 OK''"
    by (simp add: lf_block_def first_line_def eval_stream)
  have ls': "lines_of lf_block = [''HTTP/1.1 200 OK'', []]"
    by (simp add: lf_block_def lines_of.simps LF_def)
  have nc': "CHR '':'' \<notin> set (first_line lf_block)" by (simp add: f')
  have fresh': "line_key (first_line lf_block) \<notin> line_key ` set (tl (lines_of lf_block))"
    by (simp add: f' ls' line_key_def tolower_def)
  from status_line_among_headers [OF ok res', unfolded e] nc' fresh'
  have "map_of (headers res') (map tolower (first_line lf_block)) = Some []" by blast
  then have 2: "map_sum id (\<lambda>r. map_of (headers r) ''http/1.1 200 ok'')
      (execute_result (reply lf_block)) = Inr (Some [])"
    by (simp add: f' tolower_def res')
  from 1 2 show ?thesis by simp
qed

text \<open>
  As the claim states it, for every successful dispatch, it fails: a reason phrase with a
  colon splits the status line like a header line, and a status line that ends in a bare
  newline gives a key without a carriage return.
\<close>

theorem colon_in_status_line_counterexample:
  "map_sum id headers (execute_result (reply colon_block)) =
     Inr [([CR], []), (''http/1.1 200 ok'', ''fine'')] \<and>
   map_of [([CR], []), (''http/1.1 200 ok'', ''fine'')] (map tolower (first_line colon_block)) = None \<and>
   map_sum id headers (execute_result (reply lf_block)) = Inr [([], []), (''http/1.1 200 ok'', [])]"
  by (simp add: execute_result_def reply_def colon_block_def lf_block_def CURLE_OK_def
      Response0_def first_line_def eval_stream eval_status header_line_def tolower_def)

end
